theory Spec2Isabelle
  imports Main "HOL-Library.Char_ord" "HOL-Library.List_Lexorder" "HOL-Library.Multiset"
begin

section \<open>Dependency analyzer (dependency_analyzer.py)\<close>

text \<open>
  A shallow embedding of \<^verbatim>\<open>dependency_analyzer.py\<close>: the classifier
  \<^verbatim>\<open>_is_external_package\<close>, the ast-grep runner, the import extractors, the report
  accumulator of \<^verbatim>\<open>analyze_file\<close>, the directory walk, the depth-first cycle search
  and the parts of the text report that carry numbers.

  Conventions. A \<^verbatim>\<open>Path\<close> is the string that \<^verbatim>\<open>str()\<close> gives for it. A Python
  \<^verbatim>\<open>dict\<close> is an association list in insertion order (a key occurs once). A Python
  \<^verbatim>\<open>set\<close> that the code iterates over is the duplicate-free list of its elements in
  the order of insertion, and the order in which Python iterates it is taken from the
  environment; a set that is only tested for membership is a HOL set. A raised
  exception is a value of type \<open>error\<close>. Paths are POSIX paths.
\<close>

subsection \<open>Values and errors\<close>

text \<open>What \<^verbatim>\<open>json.loads\<close> returns. Numbers are kept as integers: the code never
  computes with them.\<close>

datatype json =
    JNull
  | JBool bool
  | JNum int
  | JStr string
  | JList "json list"
  | JDict "(string \<times> json) list"

datatype error = AttributeError | TypeError | ValueError | KeyError | RecursionError

type_synonym path = string

subsection \<open>Strings\<close>

text \<open>\<^verbatim>\<open>s.startswith(p)\<close>\<close>

definition startswith :: "string \<Rightarrow> string \<Rightarrow> bool" where
  "startswith s p = (take (length p) s = p)"

subsection \<open>The dependency classifier\<close>

text \<open>\<^verbatim>\<open>self.external_indicators\<close>, set once in \<^verbatim>\<open>__init__\<close>.\<close>

definition external_indicators :: "string list" where
  "external_indicators =
     [''@'', ''react'', ''vue'', ''angular'', ''express'', ''next'',
      ''lodash'', ''axios'', ''moment'', ''dayjs'']"

text \<open>\<^verbatim>\<open>_is_external_package\<close> on a string.\<close>

definition is_external_package :: "string \<Rightarrow> bool" where
  "is_external_package package =
     (if startswith package ''.'' then False
      else list_ex (\<lambda>indicator. startswith package indicator) external_indicators)"

subsection \<open>The environment of a run\<close>

text \<open>How \<^verbatim>\<open>subprocess.run(..., timeout=30)\<close> ends: the timeout expires, another
  exception is raised (the tool is not installed, the output is not text), or the
  process completes with a return code and its standard output.\<close>

datatype proc_outcome = TimeoutExpired | OtherException | Completed int string

text \<open>A directory tree as \<^verbatim>\<open>os.walk\<close> sees it: a file, or a directory with its
  entries by name.\<close>

datatype fstree = File | Dir "(string \<times> fstree) list"

text \<open>
  What the program takes from outside: the ast-grep process (by its argument vector),
  \<^verbatim>\<open>json.loads\<close> (\<open>None\<close> when it raises \<^verbatim>\<open>JSONDecodeError\<close>), Python's
  \<^verbatim>\<open>str()\<close> on a decoded value, the file system (\<open>None\<close> for a path that does
  not exist), the number of nested calls of the recursive search that the interpreter
  still allows when the cycle detector is called (what is left of
  \<^verbatim>\<open>sys.getrecursionlimit()\<close>), and the order in which Python iterates a set that
  holds the given elements (it depends on the hashes of the strings; it is the same
  each time as long as the set is not modified).
\<close>

record env =
  subprocess_run :: "string list \<Rightarrow> proc_outcome"
  json_loads :: "string \<Rightarrow> json option"
  py_str :: "json \<Rightarrow> string"
  fs_lookup :: "path \<Rightarrow> fstree option"
  recursion_limit :: nat
  iter_order :: "string list \<Rightarrow> string list"

subsection \<open>Python operations on decoded values\<close>

definition bind_err :: "error + 'a \<Rightarrow> ('a \<Rightarrow> error + 'b) \<Rightarrow> error + 'b" where
  "bind_err m f = (case m of Inl e \<Rightarrow> Inl e | Inr x \<Rightarrow> f x)"

text \<open>The ASCII characters that \<^verbatim>\<open>str.strip()\<close> removes.\<close>

definition py_isspace :: "char \<Rightarrow> bool" where
  "py_isspace c = (c \<in> set [CHR 0x09, CHR 0x0A, CHR 0x0B, CHR 0x0C, CHR 0x0D,
                             CHR 0x1C, CHR 0x1D, CHR 0x1E, CHR 0x1F, CHR 0x20])"

text \<open>\<^verbatim>\<open>s.strip()\<close>\<close>

definition strip :: "string \<Rightarrow> string" where
  "strip s = rev (dropWhile py_isspace (rev (dropWhile py_isspace s)))"

text \<open>\<^verbatim>\<open>p in s\<close> for two strings: \<open>p\<close> occurs in \<open>s\<close>.\<close>

definition is_substring :: "string \<Rightarrow> string \<Rightarrow> bool" where
  "is_substring p s = list_ex (\<lambda>i. startswith (drop i s) p) [0..<Suc (length s)]"

text \<open>\<^verbatim>\<open>for match in matches\<close>: the elements of a list, the keys of a dict, the
  characters of a string; anything else is not iterable.\<close>

fun py_iter :: "json \<Rightarrow> error + json list" where
  "py_iter (JList xs) = Inr xs"
| "py_iter (JDict kvs) = Inr (map (\<lambda>kv. JStr (fst kv)) kvs)"
| "py_iter (JStr s) = Inr (map (\<lambda>c. JStr [c]) s)"
| "py_iter _ = Inl TypeError"

text \<open>\<^verbatim>\<open>x.get(key, default)\<close>: only a dict has the method.\<close>

fun py_get :: "json \<Rightarrow> string \<Rightarrow> json \<Rightarrow> error + json" where
  "py_get (JDict kvs) key dflt =
     Inr (case map_of kvs key of None \<Rightarrow> dflt | Some v \<Rightarrow> v)"
| "py_get _ key dflt = Inl AttributeError"

text \<open>\<^verbatim>\<open>key in x\<close> for a string key.\<close>

fun py_contains :: "string \<Rightarrow> json \<Rightarrow> error + bool" where
  "py_contains key (JDict kvs) = Inr (key \<in> set (map fst kvs))"
| "py_contains key (JList xs) = Inr (JStr key \<in> set xs)"
| "py_contains key (JStr s) = Inr (is_substring key s)"
| "py_contains key _ = Inl TypeError"

text \<open>\<^verbatim>\<open>x[key]\<close> for a string key.\<close>

fun py_subscript :: "json \<Rightarrow> string \<Rightarrow> error + json" where
  "py_subscript (JDict kvs) key =
     (case map_of kvs key of None \<Rightarrow> Inl KeyError | Some v \<Rightarrow> Inr v)"
| "py_subscript _ key = Inl TypeError"

subsection \<open>Running ast-grep\<close>

text \<open>\<^verbatim>\<open>_run_astgrep\<close>: every exception is caught and gives the empty list.\<close>

definition astgrep_argv :: "string \<Rightarrow> string \<Rightarrow> path \<Rightarrow> string list" where
  "astgrep_argv pattern language fp =
     [''ast-grep'', ''run'', ''-p'', pattern, ''--lang'', language, ''--json'', fp]"

definition run_astgrep :: "env \<Rightarrow> path \<Rightarrow> string \<Rightarrow> string \<Rightarrow> json" where
  "run_astgrep env fp pattern language =
     (case subprocess_run env (astgrep_argv pattern language fp) of
        TimeoutExpired \<Rightarrow> JList []
      | OtherException \<Rightarrow> JList []
      | Completed returncode stdout \<Rightarrow>
          if returncode = 0 \<and> strip stdout \<noteq> []
          then (case json_loads env stdout of None \<Rightarrow> JList [] | Some v \<Rightarrow> v)
          else JList [])"

text \<open>The invocation for a file and a pattern fails: it times out, it raises another
  exception, or it completes with output that \<^verbatim>\<open>json.loads\<close> rejects.\<close>

definition invocation_fails :: "env \<Rightarrow> string \<Rightarrow> string \<Rightarrow> path \<Rightarrow> bool" where
  "invocation_fails env pattern language fp =
     (case subprocess_run env (astgrep_argv pattern language fp) of
        TimeoutExpired \<Rightarrow> True
      | OtherException \<Rightarrow> True
      | Completed returncode stdout \<Rightarrow> json_loads env stdout = None)"

subsection \<open>Dependency records\<close>

text \<open>\<^verbatim>\<open>DependencyInfo\<close>. The line number is whatever the tool's output holds under
  \<^verbatim>\<open>range.start.line\<close>.\<close>

record DependencyInfo =
  package :: string
  import_type :: string
  file_path :: string
  line_number :: json
  is_external :: bool

subsection \<open>The import extractors\<close>

text \<open>\<^verbatim>\<open>package_node.get('text') if isinstance(package_node, dict) else str(package_node)\<close>\<close>

definition node_text :: "env \<Rightarrow> json \<Rightarrow> json" where
  "node_text env package_node =
     (case package_node of
        JDict kvs \<Rightarrow> (case map_of kvs ''text'' of None \<Rightarrow> JNull | Some v \<Rightarrow> v)
      | _ \<Rightarrow> JStr (py_str env package_node))"

text \<open>The \<^verbatim>\<open>if\<close>/\<^verbatim>\<open>elif\<close>/\<^verbatim>\<open>else: continue\<close> that finds the package of a match, in both
  output formats of ast-grep; \<open>None\<close> is the \<^verbatim>\<open>continue\<close>.\<close>

definition match_package :: "env \<Rightarrow> json \<Rightarrow> error + json option" where
  "match_package env m =
     bind_err (py_get m ''metaVariables'' (JDict [])) (\<lambda>meta.
     bind_err (py_contains ''single'' meta) (\<lambda>has_single.
     bind_err (if has_single
               then bind_err (py_subscript meta ''single'') (py_contains ''PACKAGE'')
               else Inr False) (\<lambda>in_single.
     if in_single
     then bind_err (py_subscript meta ''single'') (\<lambda>single.
          bind_err (py_subscript single ''PACKAGE'') (\<lambda>package_node.
          Inr (Some (node_text env package_node))))
     else bind_err (py_contains ''PACKAGE'' meta) (\<lambda>has_package.
          if has_package
          then bind_err (py_subscript meta ''PACKAGE'') (\<lambda>package_node.
               Inr (Some (node_text env package_node)))
          else Inr None))))"

text \<open>\<^verbatim>\<open>match.get('range', {}).get('start', {}).get('line', 0)\<close>\<close>

definition match_line :: "json \<Rightarrow> error + json" where
  "match_line m =
     bind_err (py_get m ''range'' (JDict [])) (\<lambda>r.
     bind_err (py_get r ''start'' (JDict [])) (\<lambda>s.
     py_get s ''line'' (JNum 0)))"

text \<open>The body of each \<^verbatim>\<open>for match in matches\<close> loop (the source repeats it for every
  import kind): the record of one match, \<open>None\<close> when the match is skipped.
  \<^verbatim>\<open>_is_external_package(package)\<close> calls \<^verbatim>\<open>package.startswith\<close>, a method that only
  a \<^verbatim>\<open>str\<close> has: any other value raises \<^verbatim>\<open>AttributeError\<close>.\<close>

definition match_dep :: "env \<Rightarrow> path \<Rightarrow> string \<Rightarrow> json \<Rightarrow> error + DependencyInfo option" where
  "match_dep env fp kind m =
     bind_err (match_package env m) (\<lambda>found.
     case found of
       None \<Rightarrow> Inr None
     | Some pkg \<Rightarrow>
         bind_err (match_line m) (\<lambda>line_num.
         case pkg of
           JStr s \<Rightarrow> Inr (Some \<lparr>package = s, import_type = kind, file_path = fp,
                                 line_number = line_num,
                                 is_external = is_external_package s\<rparr>)
         | _ \<Rightarrow> Inl AttributeError))"

fun collect_matches ::
  "env \<Rightarrow> path \<Rightarrow> string \<Rightarrow> json list \<Rightarrow> DependencyInfo list \<Rightarrow> error + DependencyInfo list" where
  "collect_matches env fp kind [] dependencies = Inr dependencies"
| "collect_matches env fp kind (m # ms) dependencies =
     (case match_dep env fp kind m of
        Inl e \<Rightarrow> Inl e
      | Inr None \<Rightarrow> collect_matches env fp kind ms dependencies
      | Inr (Some dep) \<Rightarrow> collect_matches env fp kind ms (dependencies @ [dep]))"

text \<open>One pattern: run the tool, then loop over its matches.\<close>

definition run_pattern ::
  "env \<Rightarrow> path \<Rightarrow> string \<Rightarrow> string \<Rightarrow> string \<Rightarrow> DependencyInfo list \<Rightarrow> error + DependencyInfo list" where
  "run_pattern env fp language kind pattern dependencies =
     bind_err (py_iter (run_astgrep env fp pattern language)) (\<lambda>matches.
     collect_matches env fp kind matches dependencies)"

text \<open>\<^verbatim>\<open>for pattern in patterns\<close>\<close>

fun run_patterns ::
  "env \<Rightarrow> path \<Rightarrow> string \<Rightarrow> string \<Rightarrow> string list \<Rightarrow> DependencyInfo list \<Rightarrow> error + DependencyInfo list" where
  "run_patterns env fp language kind [] dependencies = Inr dependencies"
| "run_patterns env fp language kind (pattern # patterns) dependencies =
     bind_err (run_pattern env fp language kind pattern dependencies)
              (run_patterns env fp language kind patterns)"

definition python_patterns :: "string list" where
  "python_patterns =
     [''import $PACKAGE'', ''from $PACKAGE import $$$'', ''import $PACKAGE as $ALIAS'']"

definition analyze_python_imports :: "env \<Rightarrow> path \<Rightarrow> error + DependencyInfo list" where
  "analyze_python_imports env fp = run_patterns env fp ''python'' ''static'' python_patterns []"

definition static_patterns :: "string list" where
  \<open>static_patterns =
     [''import $$ from "$PACKAGE"'', ''import { $$ } from "$PACKAGE"'',
      ''import * as $$ from "$PACKAGE"'', ''import "$PACKAGE"'']\<close>

definition analyze_typescript_imports :: "env \<Rightarrow> path \<Rightarrow> string \<Rightarrow> error + DependencyInfo list" where
  \<open>analyze_typescript_imports env fp language =
     bind_err (run_patterns env fp language ''static'' static_patterns [])
     (\<lambda>dependencies.
     bind_err (run_pattern env fp language ''dynamic'' ''import("$PACKAGE")'' dependencies)
     (\<lambda>dependencies.
     bind_err (run_pattern env fp language ''require'' ''require("$PACKAGE")'' dependencies)
     (run_pattern env fp language ''type_only'' ''import type { $$ } from "$PACKAGE"'')))\<close>

subsection \<open>The report\<close>

text \<open>\<^verbatim>\<open>DependencyReport\<close>. The two \<^verbatim>\<open>defaultdict\<close>s are association lists in
  insertion order; the graph maps a node to its set of targets, kept as the
  duplicate-free list of the targets in the order in which they were added.\<close>

record DependencyReport =
  total_dependencies :: int
  external_dependencies :: int
  internal_dependencies :: int
  dependencies_by_file :: "(string \<times> DependencyInfo list) list"
  dependency_graph :: "(string \<times> string list) list"
  circular_dependencies :: "string list list"
  unused_dependencies :: "string set"

text \<open>\<^verbatim>\<open>DependencyReport()\<close>\<close>

definition new_report :: DependencyReport where
  "new_report =
     \<lparr>total_dependencies = 0, external_dependencies = 0, internal_dependencies = 0,
      dependencies_by_file = [], dependency_graph = [], circular_dependencies = [],
      unused_dependencies = {}\<rparr>"

text \<open>\<^verbatim>\<open>dependencies_by_file[key].append(dep)\<close> on a \<^verbatim>\<open>defaultdict(list)\<close>: a missing
  key is created at the end.\<close>

fun by_file_append ::
  "string \<Rightarrow> DependencyInfo \<Rightarrow> (string \<times> DependencyInfo list) list
     \<Rightarrow> (string \<times> DependencyInfo list) list" where
  "by_file_append key dep [] = [(key, [dep])]"
| "by_file_append key dep ((k, deps) # rest) =
     (if k = key then (k, deps @ [dep]) # rest
      else (k, deps) # by_file_append key dep rest)"

text \<open>\<^verbatim>\<open>dependency_graph[key].add(target)\<close> on a \<^verbatim>\<open>defaultdict(set)\<close>.\<close>

fun graph_add ::
  "string \<Rightarrow> string \<Rightarrow> (string \<times> string list) list \<Rightarrow> (string \<times> string list) list" where
  "graph_add key target [] = [(key, [target])]"
| "graph_add key target ((k, targets) # rest) =
     (if k = key then (k, if target \<in> set targets then targets else targets @ [target]) # rest
      else (k, targets) # graph_add key target rest)"

subsection \<open>Paths\<close>

text \<open>The final component of a path.\<close>

definition path_name :: "path \<Rightarrow> string" where
  "path_name p = rev (takeWhile (\<lambda>c. c \<noteq> CHR ''/'') (rev p))"

text \<open>\<^verbatim>\<open>Path.suffix\<close>: the final component from its last dot on, when that dot is
  neither its first nor its last character; otherwise the empty string.\<close>

definition suffix :: "path \<Rightarrow> string" where
  "suffix p =
     (let name = path_name p;
          after = rev (takeWhile (\<lambda>c. c \<noteq> CHR ''.'') (rev name))
      in if CHR ''.'' \<in> set name \<and> after \<noteq> [] \<and> Suc (length after) < length name
         then CHR ''.'' # after else [])"

text \<open>\<^verbatim>\<open>os.path.join(top, name)\<close> for a name that does not begin with a slash, as the
  names that \<^verbatim>\<open>os.walk\<close> yields.\<close>

definition path_join :: "path \<Rightarrow> string \<Rightarrow> path" where
  "path_join dir name = (if dir = [] \<or> last dir = CHR ''/'' then dir @ name
                         else dir @ ''/'' @ name)"

text \<open>\<^verbatim>\<open>s.split('/')\<close>\<close>

fun split_slash :: "string \<Rightarrow> string list" where
  "split_slash [] = [[]]"
| "split_slash (c # cs) =
     (if c = CHR ''/'' then [] # split_slash cs
      else (case split_slash cs of [] \<Rightarrow> [[c]] | w # ws \<Rightarrow> (c # w) # ws))"

text \<open>\<^verbatim>\<open>'/'.join(parts)\<close>\<close>

fun join_slash :: "string list \<Rightarrow> string" where
  "join_slash [] = []"
| "join_slash [p] = p"
| "join_slash (p # q # ps) = p @ ''/'' @ join_slash (q # ps)"

text \<open>\<^verbatim>\<open>posixpath.splitroot\<close> without the drive: the root (nothing, one slash, or
  exactly two leading slashes) and the rest.\<close>

definition splitroot :: "string \<Rightarrow> string \<times> string" where
  "splitroot p =
     (if take 1 p \<noteq> ''/'' then ([], p)
      else if take 1 (drop 1 p) \<noteq> ''/'' \<or> take 1 (drop 2 p) = ''/'' then (''/'', drop 1 p)
      else (take 2 p, drop 2 p))"

text \<open>\<^verbatim>\<open>str(Path(p))\<close>: pathlib drops empty components and components that are a
  single dot, and writes the empty path as a dot.\<close>

definition path_str :: "string \<Rightarrow> path" where
  "path_str p =
     (let parts = filter (\<lambda>x. x \<noteq> [] \<and> x \<noteq> ''.'') (split_slash (snd (splitroot p)))
      in if fst (splitroot p) = [] \<and> parts = [] then ''.''
         else fst (splitroot p) @ join_slash parts)"

text \<open>\<^verbatim>\<open>str(Path(root) / file_name)\<close>\<close>

definition path_div :: "path \<Rightarrow> string \<Rightarrow> path" where
  "path_div root name = path_str (path_join root name)"

subsection \<open>Analysing one file\<close>

text \<open>The body of \<^verbatim>\<open>for dep in deps\<close> in \<^verbatim>\<open>analyze_file\<close>.\<close>

definition add_dep :: "path \<Rightarrow> DependencyReport \<Rightarrow> DependencyInfo \<Rightarrow> DependencyReport" where
  "add_dep fp r dep =
     (let r1 = r\<lparr>dependencies_by_file :=
                   by_file_append (file_path dep) dep (dependencies_by_file r)\<rparr>;
          r2 = r1\<lparr>total_dependencies := total_dependencies r1 + 1\<rparr>;
          r3 = (if is_external dep
                then r2\<lparr>external_dependencies := external_dependencies r2 + 1\<rparr>
                else r2\<lparr>internal_dependencies := internal_dependencies r2 + 1\<rparr>)
      in if \<not> is_external dep
         then r3\<lparr>dependency_graph := graph_add fp (package dep) (dependency_graph r3)\<rparr>
         else r3)"

text \<open>The report after the extractor has run: untouched when the extractor raised
  (the loop is never reached), otherwise every record added in order.\<close>

definition add_deps ::
  "path \<Rightarrow> DependencyReport \<Rightarrow> error + DependencyInfo list \<Rightarrow> DependencyReport \<times> error option" where
  "add_deps fp r extracted =
     (case extracted of
        Inl e \<Rightarrow> (r, Some e)
      | Inr deps \<Rightarrow> (foldl (add_dep fp) r deps, None))"

text \<open>\<^verbatim>\<open>analyze_file\<close>: the report after the call, and the exception it raised, if
  any.\<close>

definition analyze_file :: "env \<Rightarrow> path \<Rightarrow> DependencyReport \<Rightarrow> DependencyReport \<times> error option" where
  "analyze_file env fp r =
     (if suffix fp = ''.py'' then add_deps fp r (analyze_python_imports env fp)
      else if suffix fp \<in> set [''.ts'', ''.tsx'']
      then add_deps fp r (analyze_typescript_imports env fp ''typescript'')
      else if suffix fp \<in> set [''.js'', ''.jsx'']
      then add_deps fp r (analyze_typescript_imports env fp ''javascript'')
      else (r, None))"

text \<open>The records that a call of \<^verbatim>\<open>analyze_file\<close> hands to its loop
  \<^verbatim>\<open>for dep in deps\<close>: what the extractor for the file's suffix returns, and none
  when the extractor raises or the suffix is not a source suffix.\<close>

definition extracted_deps :: "env \<Rightarrow> path \<Rightarrow> DependencyInfo list" where
  "extracted_deps env fp =
     (case (if suffix fp = ''.py'' then analyze_python_imports env fp
            else if suffix fp \<in> set [''.ts'', ''.tsx'']
            then analyze_typescript_imports env fp ''typescript''
            else if suffix fp \<in> set [''.js'', ''.jsx'']
            then analyze_typescript_imports env fp ''javascript''
            else Inr []) of
        Inl e \<Rightarrow> []
      | Inr deps \<Rightarrow> deps)"

text \<open>A sequence of calls of \<^verbatim>\<open>analyze_file\<close> on one analyzer, each call in the
  environment of its moment; a call that raises leaves the report as it was and the
  caller may go on.\<close>

definition analyze_calls :: "DependencyReport \<Rightarrow> (env \<times> path) list \<Rightarrow> DependencyReport" where
  "analyze_calls r calls = foldl (\<lambda>r c. fst (analyze_file (fst c) (snd c) r)) r calls"

text \<open>The stream of records that the loops of these calls process, in order.\<close>

definition processed_records :: "(env \<times> path) list \<Rightarrow> DependencyInfo list" where
  "processed_records calls = concat (map (\<lambda>c. extracted_deps (fst c) (snd c)) calls)"

subsection \<open>Walking a directory\<close>

text \<open>The default of \<^verbatim>\<open>skip_dirs\<close>.\<close>

definition default_skip_dirs :: "string set" where
  "default_skip_dirs =
     set [''.git'', ''node_modules'', ''__pycache__'', ''.next'', ''dist'', ''build'',
          ''_site'', ''.venv'', ''venv'', ''env'', ''.cache'', ''coverage'']"

text \<open>\<^verbatim>\<open>for file_name in files\<close>: an exception raised by \<^verbatim>\<open>analyze_file\<close> ends the
  whole walk, so nothing more happens once the second component is set.\<close>

fun analyze_files ::
  "env \<Rightarrow> path \<Rightarrow> string list \<Rightarrow> DependencyReport \<times> error option
     \<Rightarrow> DependencyReport \<times> error option" where
  "analyze_files env root [] st = st"
| "analyze_files env root (file_name # rest) st =
     (if snd st \<noteq> None then st
      else if suffix (path_div root file_name) \<in> set [''.py'', ''.ts'', ''.tsx'', ''.js'', ''.jsx'']
      then analyze_files env root rest (analyze_file env (path_div root file_name) (fst st))
      else analyze_files env root rest st)"

text \<open>
  \<^verbatim>\<open>for root, dirs, files in os.walk(directory)\<close> with the loop body: top-down, the
  files of a directory first, then its subdirectories that survive the pruning
  \<^verbatim>\<open>dirs[:] = [d for d in dirs if d not in skip_dirs and not d.startswith('.')]\<close>.
  \<^verbatim>\<open>os.walk\<close> ignores the error of listing something that is not a directory, and
  names the subdirectories with \<^verbatim>\<open>os.path.join\<close>.
\<close>

fun analyze_tree ::
  "env \<Rightarrow> string set \<Rightarrow> path \<Rightarrow> fstree \<Rightarrow> DependencyReport \<times> error option
     \<Rightarrow> DependencyReport \<times> error option"
  and analyze_subdirs ::
  "env \<Rightarrow> string set \<Rightarrow> path \<Rightarrow> (string \<times> fstree) list \<Rightarrow> DependencyReport \<times> error option
     \<Rightarrow> DependencyReport \<times> error option" where
  "analyze_tree env skip_dirs root File st = st"
| "analyze_tree env skip_dirs root (Dir entries) st =
     analyze_subdirs env skip_dirs root entries
       (analyze_files env root (map fst (filter (\<lambda>e. snd e = File) entries)) st)"
| "analyze_subdirs env skip_dirs root [] st = st"
| "analyze_subdirs env skip_dirs root ((d, t) # rest) st =
     (if snd st \<noteq> None then st
      else if t \<noteq> File \<and> d \<notin> skip_dirs \<and> \<not> startswith d ''.''
      then analyze_subdirs env skip_dirs root rest
             (analyze_tree env skip_dirs (path_join root d) t st)
      else analyze_subdirs env skip_dirs root rest st)"

text \<open>\<^verbatim>\<open>analyze_directory(directory=None, skip_dirs=None)\<close> of an analyzer with the given
  \<^verbatim>\<open>root_dir\<close>; both paths are given by their strings. A directory that does not exist is walked as an empty one: \<^verbatim>\<open>os.walk\<close>
  yields nothing.\<close>

definition analyze_directory ::
  "env \<Rightarrow> path \<Rightarrow> path option \<Rightarrow> string set option \<Rightarrow> DependencyReport
     \<Rightarrow> DependencyReport \<times> error option" where
  "analyze_directory env root_dir dir_arg skip_arg r =
     (let dir = (case dir_arg of None \<Rightarrow> root_dir | Some d \<Rightarrow> d);
          skip_dirs = (case skip_arg of None \<Rightarrow> default_skip_dirs | Some sk \<Rightarrow> sk)
      in case fs_lookup env dir of
           None \<Rightarrow> (r, None)
         | Some t \<Rightarrow> analyze_tree env skip_dirs dir t (r, None))"

subsection \<open>The cycle detector\<close>

text \<open>\<^verbatim>\<open>dependency_graph.get(node, set())\<close>\<close>

definition graph_get :: "(string \<times> string list) list \<Rightarrow> string \<Rightarrow> string list" where
  "graph_get g node = (case map_of g node of None \<Rightarrow> [] | Some targets \<Rightarrow> targets)"

text \<open>
  \<^verbatim>\<open>for neighbor in targets\<close> for a set: the elements in the order the environment
  gives for them. Python iterates every element once; where the environment's answer is
  not an enumeration of the elements, the order of insertion stands in for it.
\<close>

definition set_iter :: "env \<Rightarrow> string list \<Rightarrow> string list" where
  "set_iter env targets =
     (if distinct (iter_order env targets) \<and> set (iter_order env targets) = set targets
      then iter_order env targets else targets)"

text \<open>What the nested \<^verbatim>\<open>dfs\<close> shares between its calls: the sets \<^verbatim>\<open>visited\<close> and
  \<^verbatim>\<open>rec_stack\<close>, the report's cycle list, and the exception raised, if any.\<close>

record dfs_state =
  visited :: "string set"
  rec_stack :: "string set"
  cycles :: "string list list"
  raised :: "error option"

text \<open>\<^verbatim>\<open>path.index(x)\<close>: \<open>None\<close> is the \<^verbatim>\<open>ValueError\<close>.\<close>

fun index_of :: "'a list \<Rightarrow> 'a \<Rightarrow> nat option" where
  "index_of [] x = None"
| "index_of (y # ys) x = (if y = x then Some 0 else map_option Suc (index_of ys x))"

text \<open>\<^verbatim>\<open>visited.add(node); rec_stack.add(node)\<close>\<close>

definition enter :: "string \<Rightarrow> dfs_state \<Rightarrow> dfs_state" where
  "enter node s = s\<lparr>visited := insert node (visited s), rec_stack := insert node (rec_stack s)\<rparr>"

text \<open>\<^verbatim>\<open>rec_stack.remove(node)\<close>, which raises \<^verbatim>\<open>KeyError\<close> on a missing element;
  not reached when the loop before it raised.\<close>

definition leave :: "string \<Rightarrow> dfs_state \<Rightarrow> dfs_state" where
  "leave node s =
     (if raised s \<noteq> None then s
      else if node \<in> rec_stack s then s\<lparr>rec_stack := rec_stack s - {node}\<rparr>
      else s\<lparr>raised := Some KeyError\<rparr>)"

text \<open>The branch \<^verbatim>\<open>elif neighbor in rec_stack\<close>.\<close>

definition found_cycle :: "string list \<Rightarrow> string \<Rightarrow> dfs_state \<Rightarrow> dfs_state" where
  "found_cycle pth neighbor s =
     (case index_of pth neighbor of
        None \<Rightarrow> s\<lparr>raised := Some ValueError\<rparr>
      | Some cycle_start \<Rightarrow>
          let cycle = drop cycle_start pth @ [neighbor]
          in if cycle \<in> set (cycles s) then s else s\<lparr>cycles := cycles s @ [cycle]\<rparr>)"

text \<open>
  The nested function \<^verbatim>\<open>dfs(node, path, visited, rec_stack)\<close> and its
  \<^verbatim>\<open>for neighbor in ...\<close> loop. The argument \<open>pth\<close> of \<open>dfs\<close> is the caller's list, of
  which the callee gets a copy; the loop runs on the callee's list, with the node
  appended.

  The recursion is plain Python recursion, with no guard: the number argument is the
  number of nested calls of \<open>dfs\<close> that the interpreter still allows. A call made when
  none is left raises \<^verbatim>\<open>RecursionError\<close> before its body runs, and the exception ends
  every loop and call on the way out (no \<^verbatim>\<open>rec_stack.remove\<close> is reached). Only the
  calls of \<open>dfs\<close> count against the bound: the set, list and dict operations of the
  body are built-in and open no Python frame (from Python 3.12 on the recursion limit
  applies to Python frames only).
\<close>

function dfs ::
  "env \<Rightarrow> (string \<times> string list) list \<Rightarrow> nat \<Rightarrow> string \<Rightarrow> string list \<Rightarrow> dfs_state
     \<Rightarrow> dfs_state"
  and dfs_loop ::
  "env \<Rightarrow> (string \<times> string list) list \<Rightarrow> nat \<Rightarrow> string list \<Rightarrow> string list \<Rightarrow> dfs_state
     \<Rightarrow> dfs_state"
  where
  "dfs env g 0 node pth s = s\<lparr>raised := Some RecursionError\<rparr>"
| "dfs env g (Suc depth) node pth s =
     leave node
       (dfs_loop env g depth (pth @ [node]) (set_iter env (graph_get g node)) (enter node s))"
| "dfs_loop env g depth pth [] s = s"
| "dfs_loop env g depth pth (neighbor # rest) s =
     (if raised s \<noteq> None then s
      else if neighbor \<notin> visited s
      then dfs_loop env g depth pth rest (dfs env g depth neighbor pth s)
      else if neighbor \<in> rec_stack s
      then dfs_loop env g depth pth rest (found_cycle pth neighbor s)
      else dfs_loop env g depth pth rest s)"
  by pat_completeness auto
termination dfs
  by (relation "inv_image (less_than <*lex*> less_than)
        (\<lambda>x. case x of
           Inl (env, g, depth, node, pth, s) \<Rightarrow> (depth, 0)
         | Inr (env, g, depth, pth, ns, s) \<Rightarrow> (depth, Suc (length ns)))") auto

text \<open>\<^verbatim>\<open>for node in self.report.dependency_graph: if node not in visited:
  dfs(node, [], visited, set())\<close>: every root starts with a new, empty \<^verbatim>\<open>rec_stack\<close>.\<close>

fun roots_loop ::
  "env \<Rightarrow> (string \<times> string list) list \<Rightarrow> nat \<Rightarrow> string list \<Rightarrow> dfs_state \<Rightarrow> dfs_state" where
  "roots_loop env g depth [] s = s"
| "roots_loop env g depth (node # rest) s =
     (if raised s \<noteq> None then s
      else if node \<notin> visited s
      then roots_loop env g depth rest (dfs env g depth node [] (s\<lparr>rec_stack := {}\<rparr>))
      else roots_loop env g depth rest s)"

text \<open>\<^verbatim>\<open>find_circular_dependencies\<close>: the report with the cycles found appended to its
  cycle list, and the exception raised, if any.\<close>

definition find_circular_dependencies ::
  "env \<Rightarrow> DependencyReport \<Rightarrow> DependencyReport \<times> error option" where
  "find_circular_dependencies env r =
     (let s = roots_loop env (dependency_graph r) (recursion_limit env)
                (map fst (dependency_graph r))
                \<lparr>visited = {}, rec_stack = {}, cycles = circular_dependencies r, raised = None\<rparr>
      in (r\<lparr>circular_dependencies := cycles s\<rparr>, raised s))"

text \<open>The nodes of a graph: its keys and their targets.\<close>

definition nodes_of :: "(string \<times> string list) list \<Rightarrow> string set" where
  "nodes_of g = set (map fst g) \<union> (\<Union>kv \<in> set g. set (snd kv))"

subsection \<open>The text report\<close>

text \<open>
  \<^verbatim>\<open>generate_report_text\<close> builds lines of text. The model keeps what the lines are
  made from and leaves the formatting out: the numbers of the summary, one pair per
  line of the package, import-type and top-file sections, and the cycles.
\<close>

text \<open>Every record of the report: \<^verbatim>\<open>for deps in dependencies_by_file.values() for dep in
  deps\<close>.\<close>

definition all_records :: "DependencyReport \<Rightarrow> DependencyInfo list" where
  "all_records r = concat (map snd (dependencies_by_file r))"

text \<open>The set \<^verbatim>\<open>external_packages\<close>.\<close>

definition external_packages :: "DependencyReport \<Rightarrow> string set" where
  "external_packages r = set (map package (filter is_external (all_records r)))"

text \<open>\<^verbatim>\<open>usage_count = sum(1 for deps in ... for dep in deps if dep.package == package)\<close>\<close>

definition usage_count :: "DependencyReport \<Rightarrow> string \<Rightarrow> nat" where
  "usage_count r pkg = length (filter (\<lambda>dep. package dep = pkg) (all_records r))"

text \<open>The lines \<^verbatim>\<open>{package} (used {usage_count}x)\<close>, for \<^verbatim>\<open>package in
  sorted(external_packages)\<close>.\<close>

definition external_package_lines :: "DependencyReport \<Rightarrow> (string \<times> nat) list" where
  "external_package_lines r =
     map (\<lambda>pkg. (pkg, usage_count r pkg)) (sorted_list_of_set (external_packages r))"

text \<open>The lines \<^verbatim>\<open>{import_type}: {count}\<close>, for the sorted items of the counter
  \<^verbatim>\<open>by_type\<close>.\<close>

definition by_type_lines :: "DependencyReport \<Rightarrow> (string \<times> nat) list" where
  "by_type_lines r =
     map (\<lambda>ty. (ty, length (filter (\<lambda>dep. import_type dep = ty) (all_records r))))
         (sorted_list_of_set (set (map import_type (all_records r))))"

text \<open>\<^verbatim>\<open>sorted(items, key=..., reverse=True)\<close>: Python reverses the list, sorts it
  stably in ascending order and reverses the result.\<close>

definition sorted_reverse :: "('a \<Rightarrow> nat) \<Rightarrow> 'a list \<Rightarrow> 'a list" where
  "sorted_reverse key xs = rev (sort_key key (rev xs))"

text \<open>\<^verbatim>\<open>sorted(dependencies_by_file.items(), key=lambda x: len(x[1]), reverse=True)\<close>\<close>

definition ranked_files :: "DependencyReport \<Rightarrow> (string \<times> DependencyInfo list) list" where
  "ranked_files r = sorted_reverse (\<lambda>x. length (snd x)) (dependencies_by_file r)"

text \<open>\<^verbatim>\<open>top_files\<close>: the slice \<^verbatim>\<open>[:10]\<close> of the ranking.\<close>

definition top_files :: "DependencyReport \<Rightarrow> (string \<times> DependencyInfo list) list" where
  "top_files r = take 10 (ranked_files r)"

record text_report =
  root_directory :: path
  total_line :: int
  external_line :: int
  internal_line :: int
  files_analyzed :: nat
  package_section :: "(string \<times> nat) list"
  type_section :: "(string \<times> nat) list"
  cycle_section :: "string list list"
  top_section :: "(string \<times> nat) list"

definition generate_report_text :: "path \<Rightarrow> DependencyReport \<Rightarrow> text_report" where
  "generate_report_text root_dir r =
     \<lparr>root_directory = root_dir,
      total_line = total_dependencies r,
      external_line = external_dependencies r,
      internal_line = internal_dependencies r,
      files_analyzed = length (dependencies_by_file r),
      package_section = external_package_lines r,
      type_section = by_type_lines r,
      cycle_section = circular_dependencies r,
      top_section = map (\<lambda>x. (fst x, length (snd x))) (top_files r)\<rparr>"

subsection \<open>The command line\<close>




subsection \<open>Notions of the specification\<close>

text \<open>The graph has the edge from \<open>src\<close> to \<open>tgt\<close>.\<close>

definition has_edge :: "DependencyReport \<Rightarrow> string \<Rightarrow> string \<Rightarrow> bool" where
  "has_edge r src tgt = (tgt \<in> set (graph_get (dependency_graph r) src))"

text \<open>The records that the report holds for a file.\<close>

definition records_of :: "DependencyReport \<Rightarrow> string \<Rightarrow> DependencyInfo list" where
  "records_of r src =
     (case map_of (dependencies_by_file r) src of None \<Rightarrow> [] | Some deps \<Rightarrow> deps)"

text \<open>Some record owned by \<open>src\<close> refers to \<open>tgt\<close> and is not external.\<close>

definition has_internal_record :: "DependencyReport \<Rightarrow> string \<Rightarrow> string \<Rightarrow> bool" where
  "has_internal_record r src tgt =
     list_ex (\<lambda>d. file_path d = src \<and> package d = tgt \<and> \<not> is_external d) (records_of r src)"

text \<open>The number of files of the report with at least one record for the package.\<close>

definition files_referencing :: "DependencyReport \<Rightarrow> string \<Rightarrow> nat" where
  "files_referencing r pkg =
     length (filter (\<lambda>x. list_ex (\<lambda>dep. package dep = pkg) (snd x)) (dependencies_by_file r))"

text \<open>Fan-out: the number of distinct outgoing edges of a file's node.\<close>

definition fan_out :: "DependencyReport \<Rightarrow> string \<Rightarrow> nat" where
  "fan_out r f = card (set (graph_get (dependency_graph r) f))"

text \<open>The counters of the report agree with each other and with the records stored.\<close>

definition counts_agree :: "DependencyReport \<Rightarrow> bool" where
  "counts_agree r \<longleftrightarrow>
     total_dependencies r = external_dependencies r + internal_dependencies r \<and>
     total_dependencies r = int (length (all_records r))"

text \<open>The edges of the graph are the internal records.\<close>

definition edges_agree :: "DependencyReport \<Rightarrow> bool" where
  "edges_agree r \<longleftrightarrow> (\<forall>src tgt. has_edge r src tgt \<longleftrightarrow> has_internal_record r src tgt)"

subsection \<open>A sample project\<close>

text \<open>
  A small environment to run the model on. The directory \<open>proj\<close> holds \<open>a.ts\<close>, which
  imports \<open>react\<close> twice, \<open>b.ts\<close>, which imports \<open>./a\<close>, a text file, and a pruned
  directory; ast-grep times out on one pattern of \<open>slow.py\<close>, prints a message
  that is not JSON on one pattern of \<open>bad.py\<close>, and cannot be started at all for
  \<open>dead.py\<close>; no directory \<open>missing\<close> exists. The interpreter allows 990 nested calls
  of the search, and sets are iterated from their last element to their first.
\<close>

definition sample_out_a :: string where
  \<open>sample_out_a = ''[{"metaVariables": {"single": {"PACKAGE": {"text": "react"}}}, "range": {"start": {"line": 0}}}, {"metaVariables": {"single": {"PACKAGE": {"text": "react"}}}, "range": {"start": {"line": 1}}}]''\<close>

definition sample_out_b :: string where
  \<open>sample_out_b = ''[{"metaVariables": {"PACKAGE": "./a"}}]''\<close>

definition sample_match :: "string \<Rightarrow> int \<Rightarrow> json" where
  "sample_match pkg line =
     JDict [(''metaVariables'', JDict [(''single'', JDict [(''PACKAGE'', JDict [(''text'', JStr pkg)])])]),
            (''range'', JDict [(''start'', JDict [(''line'', JNum line)])])]"

definition sample_run :: "string list \<Rightarrow> proc_outcome" where
  \<open>sample_run argv =
     (if argv \<noteq> [] \<and> last argv = ''proj/dead.py'' then OtherException
      else if argv = astgrep_argv ''import $$ from "$PACKAGE"'' ''typescript'' ''proj/a.ts''
      then Completed 0 sample_out_a
      else if argv = astgrep_argv ''import $$ from "$PACKAGE"'' ''typescript'' ''proj/b.ts''
      then Completed 0 sample_out_b
      else if argv = astgrep_argv ''import $PACKAGE'' ''python'' ''proj/slow.py''
      then TimeoutExpired
      else if argv = astgrep_argv ''import $PACKAGE'' ''python'' ''proj/bad.py''
      then Completed 0 ''Error: x''
      else Completed 0 ''[]'')\<close>

definition sample_loads :: "string \<Rightarrow> json option" where
  "sample_loads s =
     (if s = sample_out_a then Some (JList [sample_match ''react'' 0, sample_match ''react'' 1])
      else if s = sample_out_b
      then Some (JList [JDict [(''metaVariables'', JDict [(''PACKAGE'', JStr ''./a'')])]])
      else if s = ''[]'' then Some (JList [])
      else None)"

definition sample_env :: env where
  "sample_env =
     \<lparr>subprocess_run = sample_run, json_loads = sample_loads,
      py_str = (\<lambda>v. case v of JStr s \<Rightarrow> s | _ \<Rightarrow> ''?''),
      fs_lookup = (\<lambda>p. if p = ''proj''
                         then Some (Dir [(''a.ts'', File), (''b.ts'', File), (''README.md'', File),
                                         (''node_modules'', Dir [(''x.js'', File)])])
                         else None),
      recursion_limit = 990, iter_order = rev\<rparr>"

text \<open>The report of the sample project.\<close>

definition sample_report :: DependencyReport where
  "sample_report =
     \<lparr>total_dependencies = 3, external_dependencies = 2, internal_dependencies = 1,
      dependencies_by_file =
        [(''proj/a.ts'',
          [\<lparr>package = ''react'', import_type = ''static'', file_path = ''proj/a.ts'',
             line_number = JNum 0, is_external = True\<rparr>,
           \<lparr>package = ''react'', import_type = ''static'', file_path = ''proj/a.ts'',
             line_number = JNum 1, is_external = True\<rparr>]),
         (''proj/b.ts'',
          [\<lparr>package = ''./a'', import_type = ''static'', file_path = ''proj/b.ts'',
             line_number = JNum 0, is_external = False\<rparr>])],
      dependency_graph = [(''proj/b.ts'', [''./a''])],
      circular_dependencies = [], unused_dependencies = {}\<rparr>"

text \<open>A report in which three files refer to \<open>react\<close> once each, built by the loop
  body of \<^verbatim>\<open>analyze_file\<close>.\<close>

definition three_files_report :: DependencyReport where
  "three_files_report =
     foldl (\<lambda>r f. add_dep f r \<lparr>package = ''react'', import_type = ''static'', file_path = f,
                                 line_number = JNum 0, is_external = True\<rparr>)
           new_report [''f1.ts'', ''f2.ts'', ''f3.ts'']"

section \<open>Properties\<close>

subsection \<open>The classifier\<close>

lemma startswith_dot: "startswith s ''.'' \<longleftrightarrow> (\<exists>t. s = CHR ''.'' # t)"
  by (cases s) (auto simp: startswith_def)

text \<open>
  C1 (as stated): every reference beginning with \<open>.\<close> or \<open>..\<close> is classified internal and
  every other non-empty reference external. The second half fails: \<open>os\<close> is non-empty,
  does not begin with a dot, and is classified as not external, because it begins with
  none of the indicator prefixes.
\<close>

theorem C1_counterexample:
  "''os'' \<noteq> [] \<and> \<not> startswith ''os'' ''.'' \<and> \<not> is_external_package ''os''"
  by (simp add: is_external_package_def startswith_def external_indicators_def)

text \<open>
  C1 (amended): a reference beginning with \<open>.\<close> (so also one beginning with \<open>..\<close>) is
  never external; any other reference is external exactly when it begins with one of
  the fixed indicator prefixes.
\<close>

theorem C1_is_external_package:
  "(startswith s ''.'' \<longrightarrow> \<not> is_external_package s) \<and>
   (startswith s ''..'' \<longrightarrow> \<not> is_external_package s) \<and>
   (\<not> startswith s ''.'' \<longrightarrow>
      (is_external_package s \<longleftrightarrow> (\<exists>i \<in> set external_indicators. startswith s i)))"
proof -
  have "startswith s ''..'' \<Longrightarrow> startswith s ''.''"
    by (cases s) (auto simp: startswith_def split: list.splits)
  then show ?thesis
    by (auto simp: is_external_package_def list_ex_iff)
qed

theorem C1_is_external_package_witness:
  "startswith ''../components'' ''.'' \<and> startswith ''../components'' ''..'' \<and>
   \<not> is_external_package ''../components'' \<and>
   \<not> startswith ''react'' ''.'' \<and>
   (\<exists>i \<in> set external_indicators. startswith ''react'' i) \<and>
   is_external_package ''react''"
proof -
  have a: "startswith ''../components'' ''.''" by (simp add: startswith_def)
  have b: "startswith ''../components'' ''..''" by (simp add: startswith_def)
  have c: "\<not> startswith ''react'' ''.''" by (simp add: startswith_def)
  have d: "\<exists>i \<in> set external_indicators. startswith ''react'' i"
    by (simp add: startswith_def external_indicators_def)
  from C1_is_external_package [of "''../components''"] a
  have e: "\<not> is_external_package ''../components''" by blast
  from C1_is_external_package [of "''react''"] c d
  have f: "is_external_package ''react''" by blast
  from a b c d e f show ?thesis by blast
qed

subsection \<open>Errors as values\<close>

lemma bind_err_Inr: "bind_err m f = Inr y \<longleftrightarrow> (\<exists>x. m = Inr x \<and> f x = Inr y)"
  by (cases m) (auto simp: bind_err_def)

subsection \<open>The sample project\<close>

lemma analyze_sample_files:
  "analyze_calls new_report [(sample_env, ''proj/a.ts''), (sample_env, ''proj/b.ts'')] =
     sample_report"
  by code_simp

lemma analyze_sample_directory:
  "analyze_directory sample_env ''proj'' None None new_report = (sample_report, None)"
  by code_simp

subsection \<open>Files that are not source files\<close>

text \<open>
  C10: for a file whose extension is none of \<open>.py\<close>, \<open>.ts\<close>, \<open>.tsx\<close>, \<open>.js\<close>, \<open>.jsx\<close>,
  \<^verbatim>\<open>analyze_file\<close> returns without raising and leaves the whole report as it was:
  counts, per-file groupings, graph and cycle list.
\<close>

theorem C10_analyze_file_other_suffix:
  "suffix fp \<notin> set [''.py'', ''.ts'', ''.tsx'', ''.js'', ''.jsx''] \<Longrightarrow>
   analyze_file env fp r = (r, None)"
  by (simp add: analyze_file_def)

theorem C10_analyze_file_other_suffix_witness:
  "suffix ''proj/README.md'' \<notin> set [''.py'', ''.ts'', ''.tsx'', ''.js'', ''.jsx''] \<and>
   analyze_file sample_env ''proj/README.md'' sample_report = (sample_report, None)"
proof -
  have h: "suffix ''proj/README.md'' \<notin> set [''.py'', ''.ts'', ''.tsx'', ''.js'', ''.jsx'']"
    by (simp add: suffix_def path_name_def)
  from h C10_analyze_file_other_suffix [OF h, of sample_env sample_report]
  show ?thesis by blast
qed

subsection \<open>The counters of the report\<close>

lemma length_all_records_append:
  "length (concat (map snd (by_file_append k d bf))) = Suc (length (concat (map snd bf)))"
  by (induction k d bf rule: by_file_append.induct) auto

lemma add_dep_counts_agree: "counts_agree r \<Longrightarrow> counts_agree (add_dep fp r dep)"
  by (auto simp: counts_agree_def all_records_def add_dep_def Let_def length_all_records_append)

lemma foldl_add_dep_counts_agree:
  "counts_agree r \<Longrightarrow> counts_agree (foldl (add_dep fp) r deps)"
  by (induction deps arbitrary: r) (auto simp: add_dep_counts_agree)

lemma analyze_file_counts_agree:
  "counts_agree r \<Longrightarrow> counts_agree (fst (analyze_file env fp r))"
  by (auto simp: analyze_file_def add_deps_def foldl_add_dep_counts_agree split: sum.splits)

lemma analyze_calls_counts_agree:
  "counts_agree r \<Longrightarrow> counts_agree (analyze_calls r calls)"
  unfolding analyze_calls_def
  by (induction calls arbitrary: r) (auto simp: analyze_file_counts_agree)

lemma new_report_counts_agree: "counts_agree new_report"
  by (simp add: counts_agree_def new_report_def all_records_def)

text \<open>
  C9: after every call of \<^verbatim>\<open>analyze_file\<close> in any sequence of calls on a freshly
  constructed report (whatever the files and whatever the tool answers, and also when
  a call raises), the total count is the sum of the external and the internal count,
  and it is the number of records stored in \<^verbatim>\<open>dependencies_by_file\<close>.
\<close>

theorem C9_counts_invariant:
  "total_dependencies (analyze_calls new_report calls) =
     external_dependencies (analyze_calls new_report calls) +
     internal_dependencies (analyze_calls new_report calls) \<and>
   total_dependencies (analyze_calls new_report calls) =
     int (length (all_records (analyze_calls new_report calls)))"
  using analyze_calls_counts_agree [OF new_report_counts_agree, of calls]
  by (simp add: counts_agree_def)

theorem C9_counts_invariant_witness:
  "total_dependencies sample_report = 3 \<and>
   external_dependencies sample_report + internal_dependencies sample_report = 3 \<and>
   int (length (all_records sample_report)) = 3"
proof -
  have "total_dependencies sample_report = 3" by (simp add: sample_report_def)
  with C9_counts_invariant [of "[(sample_env, ''proj/a.ts''), (sample_env, ''proj/b.ts'')]"]
  show ?thesis by (simp add: analyze_sample_files)
qed

subsection \<open>The edges of the graph\<close>

lemma map_of_by_file_append:
  "map_of (by_file_append k d bf) k' =
     (if k' = k then Some (case map_of bf k of None \<Rightarrow> [d] | Some ds \<Rightarrow> ds @ [d])
      else map_of bf k')"
  by (induction k d bf rule: by_file_append.induct) auto

lemma map_of_graph_add:
  "map_of (graph_add k t g) k' =
     (if k' = k then Some (case map_of g k of None \<Rightarrow> [t]
                           | Some ts \<Rightarrow> if t \<in> set ts then ts else ts @ [t])
      else map_of g k')"
  by (induction k t g rule: graph_add.induct) auto

lemma set_graph_get_graph_add:
  "set (graph_get (graph_add k t g) k') =
     (if k' = k then insert t (set (graph_get g k)) else set (graph_get g k'))"
  by (auto simp: graph_get_def map_of_graph_add split: option.splits)

lemma records_of_by_file_append:
  "records_of (r\<lparr>dependencies_by_file := by_file_append k d (dependencies_by_file r)\<rparr>) k' =
     (if k' = k then records_of r k @ [d] else records_of r k')"
  by (auto simp: records_of_def map_of_by_file_append split: option.splits)

lemma records_of_simps [simp]:
  "records_of (r\<lparr>total_dependencies := a\<rparr>) = records_of r"
  "records_of (r\<lparr>external_dependencies := a\<rparr>) = records_of r"
  "records_of (r\<lparr>internal_dependencies := a\<rparr>) = records_of r"
  "records_of (r\<lparr>dependency_graph := g\<rparr>) = records_of r"
  by (simp_all add: records_of_def fun_eq_iff)

text \<open>Every record that an extractor returns for a file carries that file's path.\<close>

lemma match_dep_file_path:
  assumes "match_dep env fp kind m = Inr (Some d)"
  shows "file_path d = fp"
proof -
  from assms obtain found where
    f: "(case found of
           None \<Rightarrow> Inr None
         | Some pkg \<Rightarrow>
             bind_err (match_line m) (\<lambda>line_num.
             case pkg of
               JStr s \<Rightarrow> Inr (Some \<lparr>package = s, import_type = kind, file_path = fp,
                                     line_number = line_num,
                                     is_external = is_external_package s\<rparr>)
             | _ \<Rightarrow> Inl AttributeError)) = Inr (Some d)"
    unfolding match_dep_def bind_err_Inr by blast
  then obtain pkg where "found = Some pkg" by (cases found) auto
  with f show ?thesis
    by (cases pkg) (auto simp: bind_err_Inr)
qed

lemma collect_matches_file_path:
  "collect_matches env fp kind ms acc = Inr ds \<Longrightarrow> \<forall>d \<in> set acc. file_path d = fp
     \<Longrightarrow> \<forall>d \<in> set ds. file_path d = fp"
proof (induction ms arbitrary: acc)
  case Nil
  then show ?case by simp
next
  case (Cons m ms)
  show ?case
  proof (cases "match_dep env fp kind m")
    case (Inl e)
    with Cons.prems show ?thesis by simp
  next
    case (Inr skipped)
    show ?thesis
    proof (cases skipped)
      case None
      with Inr Cons show ?thesis by simp
    next
      case (Some dep)
      with Inr have "file_path dep = fp" by (simp add: match_dep_file_path)
      with Cons.prems(2) have "\<forall>d \<in> set (acc @ [dep]). file_path d = fp" by simp
      moreover from Cons.prems(1) Inr Some
      have "collect_matches env fp kind ms (acc @ [dep]) = Inr ds" by simp
      ultimately show ?thesis by (rule Cons.IH[rotated])
    qed
  qed
qed

lemma run_pattern_file_path:
  "run_pattern env fp lang kind pat acc = Inr ds \<Longrightarrow> \<forall>d \<in> set acc. file_path d = fp
     \<Longrightarrow> \<forall>d \<in> set ds. file_path d = fp"
  unfolding run_pattern_def bind_err_Inr
  using collect_matches_file_path by blast

lemma run_patterns_file_path:
  "run_patterns env fp lang kind pats acc = Inr ds \<Longrightarrow> \<forall>d \<in> set acc. file_path d = fp
     \<Longrightarrow> \<forall>d \<in> set ds. file_path d = fp"
proof (induction pats arbitrary: acc)
  case Nil
  then show ?case by simp
next
  case (Cons p ps)
  from Cons.prems(1) obtain mid where
    m: "run_pattern env fp lang kind p acc = Inr mid" and
    r: "run_patterns env fp lang kind ps mid = Inr ds"
    by (auto simp: bind_err_Inr)
  from m Cons.prems(2) have "\<forall>d \<in> set mid. file_path d = fp" by (rule run_pattern_file_path)
  with r show ?case by (rule Cons.IH)
qed

lemma analyze_python_imports_file_path:
  "analyze_python_imports env fp = Inr ds \<Longrightarrow> \<forall>d \<in> set ds. file_path d = fp"
  unfolding analyze_python_imports_def
  using run_patterns_file_path[of env fp _ _ _ "[]" ds] by simp

lemma analyze_typescript_imports_file_path:
  assumes "analyze_typescript_imports env fp lang = Inr ds"
  shows "\<forall>d \<in> set ds. file_path d = fp"
proof -
  from assms obtain d1 d2 d3 where
    1: "run_patterns env fp lang ''static'' static_patterns [] = Inr d1" and
    2: \<open>run_pattern env fp lang ''dynamic'' ''import("$PACKAGE")'' d1 = Inr d2\<close> and
    3: \<open>run_pattern env fp lang ''require'' ''require("$PACKAGE")'' d2 = Inr d3\<close> and
    4: \<open>run_pattern env fp lang ''type_only'' ''import type { $$ } from "$PACKAGE"'' d3 = Inr ds\<close>
    unfolding analyze_typescript_imports_def bind_err_Inr by blast
  from 1 have "\<forall>d \<in> set d1. file_path d = fp" by (rule run_patterns_file_path) simp
  with 2 have "\<forall>d \<in> set d2. file_path d = fp" by (rule run_pattern_file_path)
  with 3 have "\<forall>d \<in> set d3. file_path d = fp" by (rule run_pattern_file_path)
  with 4 show ?thesis by (rule run_pattern_file_path)
qed

lemma add_dep_edges_agree:
  assumes "edges_agree r" "file_path dep = fp"
  shows "edges_agree (add_dep fp r dep)"
  using assms unfolding edges_agree_def has_edge_def has_internal_record_def add_dep_def Let_def
  by (auto simp add: set_graph_get_graph_add records_of_by_file_append list_ex_iff)

lemma foldl_add_dep_edges_agree:
  "edges_agree r \<Longrightarrow> \<forall>d \<in> set deps. file_path d = fp \<Longrightarrow>
   edges_agree (foldl (add_dep fp) r deps)"
  by (induction deps arbitrary: r) (auto simp: add_dep_edges_agree)

lemma add_deps_edges_agree:
  "edges_agree r \<Longrightarrow> (\<And>ds. x = Inr ds \<Longrightarrow> \<forall>d \<in> set ds. file_path d = fp) \<Longrightarrow>
   edges_agree (fst (add_deps fp r x))"
  by (cases x) (auto simp: add_deps_def foldl_add_dep_edges_agree)

lemma analyze_file_edges_agree: "edges_agree r \<Longrightarrow> edges_agree (fst (analyze_file env fp r))"
  unfolding analyze_file_def
  by (auto intro!: add_deps_edges_agree
           dest: analyze_python_imports_file_path analyze_typescript_imports_file_path)

lemma analyze_calls_edges_agree: "edges_agree r \<Longrightarrow> edges_agree (analyze_calls r calls)"
  unfolding analyze_calls_def
  by (induction calls arbitrary: r) (auto simp: analyze_file_edges_agree)

lemma new_report_edges_agree: "edges_agree new_report"
  by (simp add: edges_agree_def has_edge_def has_internal_record_def new_report_def
        graph_get_def records_of_def)

text \<open>What a call of \<^verbatim>\<open>analyze_file\<close> does to the report is its loop run over the
  records that the extractor handed to it.\<close>

lemma analyze_file_fold:
  "fst (analyze_file env fp r) = foldl (add_dep fp) r (extracted_deps env fp)"
  by (simp add: analyze_file_def extracted_deps_def add_deps_def split: sum.splits)

lemma extracted_deps_file_path: "d \<in> set (extracted_deps env fp) \<Longrightarrow> file_path d = fp"
  unfolding extracted_deps_def
  by (auto split: sum.splits if_splits
           dest: analyze_python_imports_file_path [OF sym]
                 analyze_typescript_imports_file_path [OF sym])

lemma has_edge_add_dep:
  "has_edge (add_dep fp r dep) src tgt \<longleftrightarrow>
     has_edge r src tgt \<or> (src = fp \<and> package dep = tgt \<and> \<not> is_external dep)"
  by (auto simp: has_edge_def add_dep_def Let_def set_graph_get_graph_add)

lemma has_edge_foldl_add_dep:
  "has_edge (foldl (add_dep fp) r deps) src tgt \<longleftrightarrow>
     has_edge r src tgt \<or> (src = fp \<and> (\<exists>d \<in> set deps. package d = tgt \<and> \<not> is_external d))"
  by (induction deps arbitrary: r) (auto simp: has_edge_add_dep)

lemma has_edge_analyze_file:
  "has_edge (fst (analyze_file env fp r)) src tgt \<longleftrightarrow>
     has_edge r src tgt \<or>
     (\<exists>d \<in> set (extracted_deps env fp). file_path d = src \<and> package d = tgt \<and> \<not> is_external d)"
  unfolding analyze_file_fold has_edge_foldl_add_dep
  using extracted_deps_file_path by blast

lemma has_edge_analyze_calls:
  "has_edge (analyze_calls r calls) src tgt \<longleftrightarrow>
     has_edge r src tgt \<or>
     (\<exists>d \<in> set (processed_records calls). file_path d = src \<and> package d = tgt \<and> \<not> is_external d)"
proof (induction calls arbitrary: r)
  case Nil
  show ?case by (simp add: analyze_calls_def processed_records_def)
next
  case (Cons c calls)
  have "analyze_calls r (c # calls) = analyze_calls (fst (analyze_file (fst c) (snd c) r)) calls"
    by (simp add: analyze_calls_def)
  moreover have "set (processed_records (c # calls)) =
      set (extracted_deps (fst c) (snd c)) \<union> set (processed_records calls)"
    by (simp add: processed_records_def)
  ultimately show ?case
    using Cons [of "fst (analyze_file (fst c) (snd c) r)"]
      has_edge_analyze_file [of "fst c" "snd c" r src tgt]
    by (simp only:) blast
qed

lemma has_edge_new_report: "\<not> has_edge new_report src tgt"
  by (simp add: has_edge_def new_report_def graph_get_def)

lemma processed_sample_files:
  "processed_records [(sample_env, ''proj/a.ts''), (sample_env, ''proj/b.ts'')] =
     [\<lparr>package = ''react'', import_type = ''static'', file_path = ''proj/a.ts'',
        line_number = JNum 0, is_external = True\<rparr>,
      \<lparr>package = ''react'', import_type = ''static'', file_path = ''proj/a.ts'',
        line_number = JNum 1, is_external = True\<rparr>,
      \<lparr>package = ''./a'', import_type = ''static'', file_path = ''proj/b.ts'',
        line_number = JNum 0, is_external = False\<rparr>]"
  by code_simp

text \<open>
  C2: the loop of the graph builder, run over any stream of records for a file, adds to
  the graph exactly the edges from that file to the package reference of a record of
  the stream with \<^verbatim>\<open>is_external == false\<close>. So in the report built from a fresh one
  by any sequence of calls of \<^verbatim>\<open>analyze_file\<close>, the graph has an edge from a source
  file to a target reference if and only if some record that the extractors handed to
  the builder, owned by that file and with that package reference, has
  \<^verbatim>\<open>is_external == false\<close>; and these are the internal records that the report stores
  for the file. A record with \<^verbatim>\<open>is_external == true\<close> never produces an edge.
\<close>

theorem C2_edge_iff_processed_record:
  "(has_edge (foldl (add_dep fp) r deps) src tgt \<longleftrightarrow>
      has_edge r src tgt \<or>
      (src = fp \<and> (\<exists>d \<in> set deps. package d = tgt \<and> \<not> is_external d))) \<and>
   (has_edge (analyze_calls new_report calls) src tgt \<longleftrightarrow>
      (\<exists>d \<in> set (processed_records calls).
          file_path d = src \<and> package d = tgt \<and> \<not> is_external d)) \<and>
   (has_edge (analyze_calls new_report calls) src tgt \<longleftrightarrow>
      has_internal_record (analyze_calls new_report calls) src tgt)"
proof (intro conjI)
  show "has_edge (foldl (add_dep fp) r deps) src tgt \<longleftrightarrow>
      has_edge r src tgt \<or>
      (src = fp \<and> (\<exists>d \<in> set deps. package d = tgt \<and> \<not> is_external d))"
    by (rule has_edge_foldl_add_dep)
  show "has_edge (analyze_calls new_report calls) src tgt \<longleftrightarrow>
      (\<exists>d \<in> set (processed_records calls).
          file_path d = src \<and> package d = tgt \<and> \<not> is_external d)"
    using has_edge_analyze_calls [of new_report calls src tgt] has_edge_new_report [of src tgt]
    by blast
  show "has_edge (analyze_calls new_report calls) src tgt \<longleftrightarrow>
      has_internal_record (analyze_calls new_report calls) src tgt"
    using analyze_calls_edges_agree [OF new_report_edges_agree, of calls]
    by (simp add: edges_agree_def)
qed

theorem C2_edge_iff_processed_record_witness:
  "has_edge sample_report ''proj/b.ts'' ''./a'' \<and>
   has_internal_record sample_report ''proj/b.ts'' ''./a'' \<and>
   \<not> has_edge sample_report ''proj/a.ts'' ''react'' \<and>
   \<not> has_internal_record sample_report ''proj/a.ts'' ''react''"
proof -
  let ?calls = "[(sample_env, ''proj/a.ts''), (sample_env, ''proj/b.ts'')]"
  have p: "\<exists>d \<in> set (processed_records ?calls).
             file_path d = ''proj/b.ts'' \<and> package d = ''./a'' \<and> \<not> is_external d"
    by (simp add: processed_sample_files)
  have n: "\<not> (\<exists>d \<in> set (processed_records ?calls).
             file_path d = ''proj/a.ts'' \<and> package d = ''react'' \<and> \<not> is_external d)"
    by (simp add: processed_sample_files)
  note b = C2_edge_iff_processed_record
      [of "''proj/b.ts''" new_report "[]" "''proj/b.ts''" "''./a''" ?calls]
  note a = C2_edge_iff_processed_record
      [of "''proj/a.ts''" new_report "[]" "''proj/a.ts''" "''react''" ?calls]
  from b p have 1: "has_edge (analyze_calls new_report ?calls) ''proj/b.ts'' ''./a''"
    and 2: "has_internal_record (analyze_calls new_report ?calls) ''proj/b.ts'' ''./a''"
    by blast+
  from a n have 3: "\<not> has_edge (analyze_calls new_report ?calls) ''proj/a.ts'' ''react''"
    and 4: "\<not> has_internal_record (analyze_calls new_report ?calls) ''proj/a.ts'' ''react''"
    by blast+
  from 1 2 3 4 show ?thesis by (simp add: analyze_sample_files)
qed

subsection \<open>Time-outs and output that is not JSON\<close>

lemma run_astgrep_failed:
  assumes "invocation_fails env pattern language fp"
  shows "run_astgrep env fp pattern language = JList []"
  using assms by (auto simp: run_astgrep_def invocation_fails_def split: proc_outcome.splits)

lemma run_pattern_no_matches:
  "run_astgrep env fp pattern language = JList [] \<Longrightarrow>
   run_pattern env fp language kind pattern deps = Inr deps"
  by (simp add: run_pattern_def bind_err_def)

lemma run_patterns_skip:
  assumes "\<And>deps. run_pattern env fp language kind pattern deps = Inr deps"
  shows "run_patterns env fp language kind (before @ pattern # after) deps =
         run_patterns env fp language kind (before @ after) deps"
proof (induction before arbitrary: deps)
  case Nil
  show ?case by (simp add: assms bind_err_def)
next
  case (Cons p ps)
  have "run_patterns env fp language kind (ps @ pattern # after) =
        run_patterns env fp language kind (ps @ after)"
    using Cons.IH by (rule ext)
  then show ?case by simp
qed

lemma run_patterns_all_fail:
  assumes "\<And>pattern. invocation_fails env pattern language fp"
  shows "run_patterns env fp language kind patterns deps = Inr deps"
proof (induction patterns)
  case Nil
  show ?case by simp
next
  case (Cons p ps)
  have "run_pattern env fp language kind p deps = Inr deps"
    using assms by (intro run_pattern_no_matches run_astgrep_failed)
  with Cons show ?case by (simp add: bind_err_def)
qed

lemma analyze_file_all_fail:
  assumes "\<And>pattern language. invocation_fails env pattern language fp"
  shows "analyze_file env fp r = (r, None)"
proof -
  have p: "\<And>language kind pattern deps.
      run_pattern env fp language kind pattern deps = Inr deps"
    using assms by (intro run_pattern_no_matches run_astgrep_failed)
  have ps: "\<And>language kind patterns deps.
      run_patterns env fp language kind patterns deps = Inr deps"
    using assms by (intro run_patterns_all_fail)
  have "analyze_python_imports env fp = Inr []"
    by (simp add: analyze_python_imports_def ps)
  moreover have "\<And>language. analyze_typescript_imports env fp language = Inr []"
    by (simp add: analyze_typescript_imports_def ps p bind_err_def)
  ultimately show ?thesis
    by (simp add: analyze_file_def add_deps_def)
qed

text \<open>
  C6: when the invocation of the tool for a file and a pattern times out or raises
  another exception, or completes with malformed output, that is output that
  \<^verbatim>\<open>json.loads\<close> rejects with \<^verbatim>\<open>JSONDecodeError\<close>, \<^verbatim>\<open>_run_astgrep\<close> returns the empty
  list; the loop over the matches of that pattern adds no record and raises nothing; the
  extraction goes on with the other patterns as if that pattern were not in the list;
  and a file for which every invocation fails in one of these ways is analysed without
  an error and without a change of the report, so that the walk goes on to the next
  file.
\<close>

theorem C6_timeout_or_malformed_output:
  assumes "subprocess_run env (astgrep_argv pattern language fp) = TimeoutExpired \<or>
     subprocess_run env (astgrep_argv pattern language fp) = OtherException \<or>
     (\<exists>rc out. subprocess_run env (astgrep_argv pattern language fp) = Completed rc out \<and>
        json_loads env out = None)"
  shows "run_astgrep env fp pattern language = JList [] \<and>
         run_pattern env fp language kind pattern deps = Inr deps \<and>
         run_patterns env fp language kind (before @ pattern # after) deps =
           run_patterns env fp language kind (before @ after) deps \<and>
         ((\<forall>p l. invocation_fails env p l fp) \<longrightarrow> analyze_file env fp r = (r, None))"
proof -
  from assms have f: "invocation_fails env pattern language fp"
    by (auto simp: invocation_fails_def)
  have a: "run_astgrep env fp pattern language = JList []"
    using f by (rule run_astgrep_failed)
  then have b: "\<And>deps. run_pattern env fp language kind pattern deps = Inr deps"
    by (rule run_pattern_no_matches)
  have c: "(\<forall>p l. invocation_fails env p l fp) \<longrightarrow> analyze_file env fp r = (r, None)"
    using analyze_file_all_fail [of env fp r] by blast
  from a b c run_patterns_skip[of env fp language kind pattern, OF b] show ?thesis by blast
qed

theorem C6_timeout_or_malformed_output_witness:
  "subprocess_run sample_env (astgrep_argv ''import $PACKAGE'' ''python'' ''proj/slow.py'') =
     TimeoutExpired \<and>
   subprocess_run sample_env (astgrep_argv ''import $PACKAGE'' ''python'' ''proj/bad.py'') =
     Completed 0 ''Error: x'' \<and>
   json_loads sample_env ''Error: x'' = None \<and>
   run_astgrep sample_env ''proj/slow.py'' ''import $PACKAGE'' ''python'' = JList [] \<and>
   run_astgrep sample_env ''proj/bad.py'' ''import $PACKAGE'' ''python'' = JList [] \<and>
   run_pattern sample_env ''proj/bad.py'' ''python'' ''static'' ''import $PACKAGE'' [] = Inr [] \<and>
   analyze_python_imports sample_env ''proj/slow.py'' =
     run_patterns sample_env ''proj/slow.py'' ''python'' ''static''
       [''from $PACKAGE import $$$'', ''import $PACKAGE as $ALIAS''] [] \<and>
   subprocess_run sample_env (astgrep_argv ''import $PACKAGE'' ''python'' ''proj/dead.py'') =
     OtherException \<and>
   analyze_file sample_env ''proj/dead.py'' sample_report = (sample_report, None)"
proof -
  have t: "subprocess_run sample_env (astgrep_argv ''import $PACKAGE'' ''python'' ''proj/slow.py'') =
     TimeoutExpired"
    by (simp add: sample_env_def sample_run_def astgrep_argv_def)
  have c: "subprocess_run sample_env (astgrep_argv ''import $PACKAGE'' ''python'' ''proj/bad.py'') =
     Completed 0 ''Error: x''"
    by (simp add: sample_env_def sample_run_def astgrep_argv_def)
  have l: "json_loads sample_env ''Error: x'' = None"
    by (simp add: sample_env_def sample_loads_def sample_out_a_def sample_out_b_def)
  from t have ht:
    "subprocess_run sample_env (astgrep_argv ''import $PACKAGE'' ''python'' ''proj/slow.py'') =
       TimeoutExpired \<or>
     subprocess_run sample_env (astgrep_argv ''import $PACKAGE'' ''python'' ''proj/slow.py'') =
       OtherException \<or>
     (\<exists>rc out. subprocess_run sample_env
          (astgrep_argv ''import $PACKAGE'' ''python'' ''proj/slow.py'') = Completed rc out \<and>
        json_loads sample_env out = None)"
    by blast
  note slow = C6_timeout_or_malformed_output
      [OF ht, where kind = "''static''" and deps = "[]" and before = "[]"
        and after = "[''from $PACKAGE import $$$'', ''import $PACKAGE as $ALIAS'']"
        and r = new_report]
  from slow have 1:
    "run_astgrep sample_env ''proj/slow.py'' ''import $PACKAGE'' ''python'' = JList []"
    by blast
  from slow have
    "run_patterns sample_env ''proj/slow.py'' ''python'' ''static''
       ([] @ ''import $PACKAGE'' # [''from $PACKAGE import $$$'', ''import $PACKAGE as $ALIAS'']) [] =
     run_patterns sample_env ''proj/slow.py'' ''python'' ''static''
       ([] @ [''from $PACKAGE import $$$'', ''import $PACKAGE as $ALIAS'']) []"
    by blast
  then have 2: "analyze_python_imports sample_env ''proj/slow.py'' =
     run_patterns sample_env ''proj/slow.py'' ''python'' ''static''
       [''from $PACKAGE import $$$'', ''import $PACKAGE as $ALIAS''] []"
    by (simp only: append_Nil analyze_python_imports_def python_patterns_def)
  from c l have hb:
    "subprocess_run sample_env (astgrep_argv ''import $PACKAGE'' ''python'' ''proj/bad.py'') =
       TimeoutExpired \<or>
     subprocess_run sample_env (astgrep_argv ''import $PACKAGE'' ''python'' ''proj/bad.py'') =
       OtherException \<or>
     (\<exists>rc out. subprocess_run sample_env
          (astgrep_argv ''import $PACKAGE'' ''python'' ''proj/bad.py'') = Completed rc out \<and>
        json_loads sample_env out = None)"
    by blast
  note bad = C6_timeout_or_malformed_output
      [OF hb, where kind = "''static''" and deps = "[]" and before = "[]" and after = "[]"
        and r = new_report]
  from bad have 3:
    "run_astgrep sample_env ''proj/bad.py'' ''import $PACKAGE'' ''python'' = JList []"
    and 4: "run_pattern sample_env ''proj/bad.py'' ''python'' ''static'' ''import $PACKAGE'' [] = Inr []"
    by blast+
  have o: "subprocess_run sample_env
             (astgrep_argv ''import $PACKAGE'' ''python'' ''proj/dead.py'') = OtherException"
    by (simp add: sample_env_def sample_run_def astgrep_argv_def)
  then have hd:
    "subprocess_run sample_env (astgrep_argv ''import $PACKAGE'' ''python'' ''proj/dead.py'') =
       TimeoutExpired \<or>
     subprocess_run sample_env (astgrep_argv ''import $PACKAGE'' ''python'' ''proj/dead.py'') =
       OtherException \<or>
     (\<exists>rc out. subprocess_run sample_env
          (astgrep_argv ''import $PACKAGE'' ''python'' ''proj/dead.py'') = Completed rc out \<and>
        json_loads sample_env out = None)"
    by blast
  have all: "\<forall>p l. invocation_fails sample_env p l ''proj/dead.py''"
    by (simp add: invocation_fails_def sample_env_def sample_run_def astgrep_argv_def)
  note dead = C6_timeout_or_malformed_output
      [OF hd, where kind = "''static''" and deps = "[]" and before = "[]" and after = "[]"
        and r = sample_report]
  from dead all have 5:
    "analyze_file sample_env ''proj/dead.py'' sample_report = (sample_report, None)"
    by blast
  from t c l 1 2 3 4 o 5 show ?thesis by blast
qed

subsection \<open>The cycle detector\<close>

lemma dfs_state_simps [simp]:
  "cycles (enter node s) = cycles s" "raised (enter node s) = raised s"
  "rec_stack (enter node s) = insert node (rec_stack s)"
  "visited (enter node s) = insert node (visited s)"
  "cycles (leave node s) = cycles s" "visited (leave node s) = visited s"
  "rec_stack (found_cycle pth n s) = rec_stack s"
  "visited (found_cycle pth n s) = visited s"
  by (simp_all add: enter_def leave_def found_cycle_def Let_def split: option.splits)

lemma set_set_iter [simp]: "set (set_iter env targets) = set targets"
  by (simp add: set_iter_def)

lemma set_iter_single [simp]: "set_iter env [x] = [x]"
proof -
  have "distinct ys \<Longrightarrow> set ys = {x} \<Longrightarrow> ys = [x]" for ys :: "string list"
    by (cases ys) (auto simp: subset_singleton_iff)
  then show ?thesis by (auto simp: set_iter_def)
qed

lemma set_iter_Nil [simp]: "set_iter env [] = []"
  by (simp add: set_iter_def)

lemma dfs_loop_raised: "raised s \<noteq> None \<Longrightarrow> dfs_loop env g depth pth ns s = s"
  by (cases ns) simp_all

lemma roots_loop_raised: "raised s \<noteq> None \<Longrightarrow> roots_loop env g depth ns s = s"
  by (cases ns) simp_all

lemma finite_nodes_of: "finite (nodes_of g)"
  by (simp add: nodes_of_def)

lemma graph_get_nodes: "set (graph_get g n) \<subseteq> nodes_of g"
proof (cases "map_of g n")
  case None
  then show ?thesis by (simp add: graph_get_def)
next
  case (Some ts)
  then have "(n, ts) \<in> set g" by (rule map_of_SomeD)
  then have "set ts \<subseteq> (\<Union>kv \<in> set g. set (snd kv))" by force
  with Some show ?thesis by (auto simp: graph_get_def nodes_of_def)
qed

text \<open>A call never forgets a visited node.\<close>

lemma visited_mono:
  "visited s \<subseteq> visited (dfs env g depth node pth s)"
  "visited s \<subseteq> visited (dfs_loop env g depth pth ns s)"
proof (induction env g depth node pth s and env g depth pth ns s rule: dfs_dfs_loop.induct)
  case (1 env g node pth s)
  show ?case by simp
next
  case (2 env g depth node pth s)
  then show ?case by auto
next
  case (3 env g depth pth s)
  show ?case by simp
next
  case (4 env g depth pth neighbor rest s)
  then show ?case by (simp del: dfs.simps) blast
qed

lemma index_of_member: "x \<in> set xs \<Longrightarrow> \<exists>i. index_of xs x = Some i"
  by (induction xs) auto

text \<open>
  The search raises nothing but \<^verbatim>\<open>RecursionError\<close>: a neighbour found in
  \<^verbatim>\<open>rec_stack\<close> is on the path, so \<^verbatim>\<open>path.index\<close> finds it, and the node removed from
  \<^verbatim>\<open>rec_stack\<close> at the end of a call is still in it.
\<close>

lemma dfs_raises_only_recursion_error:
  "raised s = None \<Longrightarrow> rec_stack s \<subseteq> set pth \<Longrightarrow> rec_stack s \<subseteq> visited s \<Longrightarrow>
     node \<notin> rec_stack s \<Longrightarrow>
     (raised (dfs env g depth node pth s) = None \<and>
      rec_stack (dfs env g depth node pth s) = rec_stack s) \<or>
     raised (dfs env g depth node pth s) = Some RecursionError"
  "raised s = None \<Longrightarrow> rec_stack s \<subseteq> set pth \<Longrightarrow> rec_stack s \<subseteq> visited s \<Longrightarrow>
     (raised (dfs_loop env g depth pth ns s) = None \<and>
      rec_stack (dfs_loop env g depth pth ns s) = rec_stack s) \<or>
     raised (dfs_loop env g depth pth ns s) = Some RecursionError"
proof (induction env g depth node pth s and env g depth pth ns s rule: dfs_dfs_loop.induct)
  case (1 env g node pth s)
  show ?case by simp
next
  case (2 env g depth node pth s)
  let ?s1 = "enter node s"
  let ?s2 = "dfs_loop env g depth (pth @ [node]) (set_iter env (graph_get g node)) ?s1"
  have "raised ?s1 = None" "rec_stack ?s1 \<subseteq> set (pth @ [node])" "rec_stack ?s1 \<subseteq> visited ?s1"
    using "2.prems" by auto
  then have "(raised ?s2 = None \<and> rec_stack ?s2 = rec_stack ?s1) \<or>
             raised ?s2 = Some RecursionError"
    by (rule "2.IH")
  with "2.prems"(4) show ?case by (auto simp: leave_def)
next
  case (3 env g depth pth s)
  then show ?case by simp
next
  case (4 env g depth pth neighbor rest s)
  note r = "4.prems"(1)
  show ?case
  proof (cases "neighbor \<notin> visited s")
    case True
    let ?s1 = "dfs env g depth neighbor pth s"
    from True "4.prems"(3) have "neighbor \<notin> rec_stack s" by blast
    with "4.IH"(1) r True "4.prems"
    have 1: "(raised ?s1 = None \<and> rec_stack ?s1 = rec_stack s) \<or>
             raised ?s1 = Some RecursionError"
      by blast
    show ?thesis
    proof (cases "raised ?s1 = None")
      case ok: True
      with 1 have rs: "rec_stack ?s1 = rec_stack s" by auto
      have "visited s \<subseteq> visited ?s1" by (rule visited_mono)
      with rs have "rec_stack ?s1 \<subseteq> set pth" "rec_stack ?s1 \<subseteq> visited ?s1"
        using "4.prems" by auto
      with "4.IH"(2) r True ok
      have "(raised (dfs_loop env g depth pth rest ?s1) = None \<and>
             rec_stack (dfs_loop env g depth pth rest ?s1) = rec_stack ?s1) \<or>
            raised (dfs_loop env g depth pth rest ?s1) = Some RecursionError"
        by blast
      with rs r True show ?thesis by (simp del: dfs.simps)
    next
      case False
      with 1 have "raised ?s1 = Some RecursionError" by auto
      moreover from False have "dfs_loop env g depth pth rest ?s1 = ?s1"
        by (rule dfs_loop_raised)
      ultimately show ?thesis using r True by (simp del: dfs.simps)
    qed
  next
    case v: False
    show ?thesis
    proof (cases "neighbor \<in> rec_stack s")
      case True
      let ?s1 = "found_cycle pth neighbor s"
      from True "4.prems"(2) have "neighbor \<in> set pth" by blast
      then obtain i where "index_of pth neighbor = Some i" using index_of_member by fastforce
      with r have "raised ?s1 = None" by (simp add: found_cycle_def Let_def)
      moreover have "rec_stack ?s1 \<subseteq> set pth" "rec_stack ?s1 \<subseteq> visited ?s1"
        using "4.prems" by simp_all
      ultimately have "(raised (dfs_loop env g depth pth rest ?s1) = None \<and>
             rec_stack (dfs_loop env g depth pth rest ?s1) = rec_stack ?s1) \<or>
            raised (dfs_loop env g depth pth rest ?s1) = Some RecursionError"
        using "4.IH"(3) r v True by blast
      with r v True show ?thesis by (simp del: dfs.simps)
    next
      case False
      with "4.IH"(4) r v "4.prems" show ?thesis by (simp del: dfs.simps)
    qed
  qed
qed

lemma roots_loop_raises_only_recursion_error:
  "raised s = None \<Longrightarrow>
   raised (roots_loop env g depth ns s) = None \<or>
   raised (roots_loop env g depth ns s) = Some RecursionError"
proof (induction ns arbitrary: s)
  case Nil
  then show ?case by simp
next
  case (Cons n ns)
  let ?s1 = "dfs env g depth n [] (s\<lparr>rec_stack := {}\<rparr>)"
  have 1: "raised ?s1 = None \<or> raised ?s1 = Some RecursionError"
    using dfs_raises_only_recursion_error(1) [of "s\<lparr>rec_stack := {}\<rparr>" "[]" n env g depth]
      Cons.prems by auto
  show ?case
  proof (cases "raised ?s1 = None")
    case True
    with Cons show ?thesis by (simp del: dfs.simps)
  next
    case False
    with 1 have "raised ?s1 = Some RecursionError" by auto
    moreover from False have "roots_loop env g depth ns ?s1 = ?s1" by (rule roots_loop_raised)
    ultimately show ?thesis using Cons by (simp del: dfs.simps)
  qed
qed

text \<open>
  With at least as many nested calls allowed as there are unvisited nodes, no
  \<^verbatim>\<open>RecursionError\<close> is raised: every nested call visits a new node.
\<close>

lemma raised_leave: "raised (leave node s) = Some RecursionError \<Longrightarrow> raised s = Some RecursionError"
  by (auto simp: leave_def split: if_splits)

lemma raised_found_cycle: "raised s = None \<Longrightarrow> raised (found_cycle pth n s) \<noteq> Some RecursionError"
  by (auto simp: found_cycle_def Let_def split: option.splits)

lemma dfs_no_recursion_error:
  "raised s = None \<Longrightarrow> node \<in> nodes_of g \<Longrightarrow> node \<notin> visited s \<Longrightarrow>
     card (nodes_of g - visited s) \<le> depth \<Longrightarrow>
     raised (dfs env g depth node pth s) \<noteq> Some RecursionError"
  "raised s = None \<Longrightarrow> set ns \<subseteq> nodes_of g \<Longrightarrow> card (nodes_of g - visited s) \<le> depth \<Longrightarrow>
     raised (dfs_loop env g depth pth ns s) \<noteq> Some RecursionError"
proof (induction env g depth node pth s and env g depth pth ns s rule: dfs_dfs_loop.induct)
  case (1 env g node pth s)
  from "1.prems"(2,3) have "node \<in> nodes_of g - visited s" by blast
  then have "0 < card (nodes_of g - visited s)"
    using finite_nodes_of [of g] by (auto simp: card_gt_0_iff)
  with "1.prems"(4) show ?case by simp
next
  case (2 env g depth node pth s)
  let ?s1 = "enter node s"
  from "2.prems"(2,3) have "node \<in> nodes_of g - visited s" by blast
  then have "card (nodes_of g - insert node (visited s)) < card (nodes_of g - visited s)"
    using finite_nodes_of [of g] by (intro psubset_card_mono) auto
  with "2.prems"(4) have "card (nodes_of g - visited ?s1) \<le> depth" by simp
  moreover have "raised ?s1 = None" using "2.prems"(1) by simp
  moreover have "set (set_iter env (graph_get g node)) \<subseteq> nodes_of g"
    using graph_get_nodes by simp
  ultimately have
    "raised (dfs_loop env g depth (pth @ [node]) (set_iter env (graph_get g node)) ?s1) \<noteq>
       Some RecursionError"
    by (intro "2.IH")
  then show ?case using raised_leave by (auto simp del: dfs_loop.simps)
next
  case (3 env g depth pth s)
  then show ?case by simp
next
  case (4 env g depth pth neighbor rest s)
  note r = "4.prems"(1)
  from "4.prems"(2) have nb: "neighbor \<in> nodes_of g" and rest: "set rest \<subseteq> nodes_of g" by auto
  show ?case
  proof (cases "neighbor \<notin> visited s")
    case True
    let ?s1 = "dfs env g depth neighbor pth s"
    from "4.IH"(1) r True nb "4.prems"(3) have 1: "raised ?s1 \<noteq> Some RecursionError" by blast
    show ?thesis
    proof (cases "raised ?s1 = None")
      case ok: True
      have "visited s \<subseteq> visited ?s1" by (rule visited_mono)
      then have "card (nodes_of g - visited ?s1) \<le> card (nodes_of g - visited s)"
        using finite_nodes_of [of g] by (intro card_mono) auto
      with "4.prems"(3) have "card (nodes_of g - visited ?s1) \<le> depth" by simp
      with "4.IH"(2) r True ok rest
      have "raised (dfs_loop env g depth pth rest ?s1) \<noteq> Some RecursionError" by blast
      with r True show ?thesis by (simp del: dfs.simps)
    next
      case False
      then have "dfs_loop env g depth pth rest ?s1 = ?s1" by (rule dfs_loop_raised)
      with 1 r True show ?thesis by (simp del: dfs.simps)
    qed
  next
    case v: False
    show ?thesis
    proof (cases "neighbor \<in> rec_stack s")
      case True
      let ?s1 = "found_cycle pth neighbor s"
      from r have 1: "raised ?s1 \<noteq> Some RecursionError" by (rule raised_found_cycle)
      show ?thesis
      proof (cases "raised ?s1 = None")
        case ok: True
        with "4.IH"(3) r v True rest "4.prems"(3)
        have "raised (dfs_loop env g depth pth rest ?s1) \<noteq> Some RecursionError" by simp
        with r v True show ?thesis by (simp del: dfs.simps)
      next
        case False
        then have "dfs_loop env g depth pth rest ?s1 = ?s1" by (rule dfs_loop_raised)
        with 1 r v True show ?thesis by (simp del: dfs.simps)
      qed
    next
      case False
      with "4.IH"(4) r v rest "4.prems"(3) show ?thesis by (simp del: dfs.simps)
    qed
  qed
qed

lemma roots_loop_no_recursion_error:
  "raised s = None \<Longrightarrow> set ns \<subseteq> nodes_of g \<Longrightarrow> card (nodes_of g - visited s) \<le> depth \<Longrightarrow>
   raised (roots_loop env g depth ns s) \<noteq> Some RecursionError"
proof (induction ns arbitrary: s)
  case Nil
  then show ?case by simp
next
  case (Cons n ns)
  show ?case
  proof (cases "n \<notin> visited s")
    case True
    let ?s0 = "s\<lparr>rec_stack := {}\<rparr>"
    let ?s1 = "dfs env g depth n [] ?s0"
    from Cons.prems True have 1: "raised ?s1 \<noteq> Some RecursionError"
      by (intro dfs_no_recursion_error(1)) auto
    show ?thesis
    proof (cases "raised ?s1 = None")
      case ok: True
      have "visited ?s0 \<subseteq> visited ?s1" by (rule visited_mono)
      then have "card (nodes_of g - visited ?s1) \<le> card (nodes_of g - visited s)"
        using finite_nodes_of [of g] by (intro card_mono) auto
      with Cons.prems(3) have "card (nodes_of g - visited ?s1) \<le> depth" by simp
      with Cons.IH [of ?s1] ok Cons.prems(2)
      have "raised (roots_loop env g depth ns ?s1) \<noteq> Some RecursionError" by simp
      with Cons.prems(1) True show ?thesis by (simp del: dfs.simps)
    next
      case False
      then have "roots_loop env g depth ns ?s1 = ?s1" by (rule roots_loop_raised)
      with 1 Cons.prems(1) True show ?thesis by (simp del: dfs.simps)
    qed
  next
    case False
    with Cons show ?thesis by (simp del: dfs.simps)
  qed
qed

lemma find_circular_dependencies_raises_only_recursion_error:
  "snd (find_circular_dependencies env r) = None \<or>
   snd (find_circular_dependencies env r) = Some RecursionError"
  using roots_loop_raises_only_recursion_error
    [of "\<lparr>visited = {}, rec_stack = {}, cycles = circular_dependencies r, raised = None\<rparr>"
        env "dependency_graph r" "recursion_limit env" "map fst (dependency_graph r)"]
  by (simp add: find_circular_dependencies_def Let_def)

lemma find_circular_dependencies_no_raise:
  assumes "card (nodes_of (dependency_graph r)) \<le> recursion_limit env"
  shows "snd (find_circular_dependencies env r) = None"
proof -
  let ?s0 = "\<lparr>visited = {}, rec_stack = {}, cycles = circular_dependencies r, raised = None\<rparr>"
  have "raised (roots_loop env (dependency_graph r) (recursion_limit env)
                  (map fst (dependency_graph r)) ?s0) \<noteq> Some RecursionError"
    using assms by (intro roots_loop_no_recursion_error) (auto simp: nodes_of_def)
  with find_circular_dependencies_raises_only_recursion_error [of env r]
  show ?thesis by (simp add: find_circular_dependencies_def Let_def)
qed

text \<open>The cycle list only grows.\<close>

lemma cycles_found_cycle: "set (cycles s) \<subseteq> set (cycles (found_cycle pth n s))"
  by (auto simp: found_cycle_def Let_def split: option.splits)

lemma cycles_mono:
  "set (cycles s) \<subseteq> set (cycles (dfs env g depth node pth s))"
  "set (cycles s) \<subseteq> set (cycles (dfs_loop env g depth pth ns s))"
proof (induction env g depth node pth s and env g depth pth ns s rule: dfs_dfs_loop.induct)
  case (1 env g node pth s)
  show ?case by simp
next
  case (2 env g depth node pth s)
  then show ?case by simp
next
  case (3 env g depth pth s)
  show ?case by simp
next
  case (4 env g depth pth neighbor rest s)
  then show ?case using cycles_found_cycle[of s pth neighbor]
    by (simp del: dfs.simps) blast
qed

lemma roots_loop_cycles_mono: "set (cycles s) \<subseteq> set (cycles (roots_loop env g depth ns s))"
proof (induction ns arbitrary: s)
  case Nil
  then show ?case by simp
next
  case (Cons n ns)
  have "set (cycles s) \<subseteq> set (cycles (dfs env g depth n [] (s\<lparr>rec_stack := {}\<rparr>)))"
    using cycles_mono(1)[of "s\<lparr>rec_stack := {}\<rparr>" env g depth n "[]"] by simp
  with Cons[of "dfs env g depth n [] (s\<lparr>rec_stack := {}\<rparr>)"] Cons[of s] show ?case
    by (auto simp del: dfs.simps)
qed

text \<open>
  The cycle list steers nothing: a search that starts with a list holding already every
  cycle that the search finds makes the same steps and leaves the list alone. This
  holds also for a search that \<^verbatim>\<open>RecursionError\<close> ends.
\<close>

lemma enter_cycles_update: "enter node (s\<lparr>cycles := c\<rparr>) = (enter node s)\<lparr>cycles := c\<rparr>"
  by (simp add: enter_def)

lemma leave_cycles_update: "leave node (s\<lparr>cycles := c\<rparr>) = (leave node s)\<lparr>cycles := c\<rparr>"
  by (simp add: leave_def)

lemma found_cycle_cycles_update:
  "set (cycles (found_cycle pth n s)) \<subseteq> set c \<Longrightarrow>
   found_cycle pth n (s\<lparr>cycles := c\<rparr>) = (found_cycle pth n s)\<lparr>cycles := c\<rparr>"
  by (auto simp: found_cycle_def Let_def split: option.splits if_splits)

lemma dfs_cycles_update:
  "set (cycles (dfs env g depth node pth s)) \<subseteq> set c \<Longrightarrow>
     dfs env g depth node pth (s\<lparr>cycles := c\<rparr>) = (dfs env g depth node pth s)\<lparr>cycles := c\<rparr>"
  "set (cycles (dfs_loop env g depth pth ns s)) \<subseteq> set c \<Longrightarrow>
     dfs_loop env g depth pth ns (s\<lparr>cycles := c\<rparr>) =
       (dfs_loop env g depth pth ns s)\<lparr>cycles := c\<rparr>"
proof (induction env g depth node pth s and env g depth pth ns s rule: dfs_dfs_loop.induct)
  case (1 env g node pth s)
  show ?case by simp
next
  case (2 env g depth node pth s)
  then show ?case by (simp add: enter_cycles_update leave_cycles_update)
next
  case (3 env g depth pth s)
  show ?case by simp
next
  case (4 env g depth pth neighbor rest s)
  show ?case
  proof (cases "raised s \<noteq> None")
    case True
    then show ?thesis by simp
  next
    case r: False
    show ?thesis
    proof (cases "neighbor \<notin> visited s")
      case True
      let ?s1 = "dfs env g depth neighbor pth s"
      from r True "4.prems" have sub: "set (cycles (dfs_loop env g depth pth rest ?s1)) \<subseteq> set c"
        by (simp del: dfs.simps)
      with cycles_mono(2)[of ?s1 env g depth pth rest] have "set (cycles ?s1) \<subseteq> set c" by blast
      with "4.IH"(1)[OF r True]
      have "dfs env g depth neighbor pth (s\<lparr>cycles := c\<rparr>) = ?s1\<lparr>cycles := c\<rparr>"
        by blast
      moreover from "4.IH"(2)[OF r True sub]
      have "dfs_loop env g depth pth rest (?s1\<lparr>cycles := c\<rparr>) =
              (dfs_loop env g depth pth rest ?s1)\<lparr>cycles := c\<rparr>" .
      ultimately show ?thesis using r True by (simp del: dfs.simps)
    next
      case v: False
      show ?thesis
      proof (cases "neighbor \<in> rec_stack s")
        case True
        let ?s1 = "found_cycle pth neighbor s"
        from r v True "4.prems"
        have sub: "set (cycles (dfs_loop env g depth pth rest ?s1)) \<subseteq> set c"
          by (simp del: dfs.simps)
        with cycles_mono(2)[of ?s1 env g depth pth rest] have "set (cycles ?s1) \<subseteq> set c"
          by blast
        then have "found_cycle pth neighbor (s\<lparr>cycles := c\<rparr>) = ?s1\<lparr>cycles := c\<rparr>"
          by (rule found_cycle_cycles_update)
        moreover from "4.IH"(3) r v True sub
        have "dfs_loop env g depth pth rest (?s1\<lparr>cycles := c\<rparr>) =
                (dfs_loop env g depth pth rest ?s1)\<lparr>cycles := c\<rparr>"
          by blast
        ultimately show ?thesis using r v True by (simp del: dfs.simps)
      next
        case False
        with r v "4.prems" "4.IH"(4) show ?thesis by (simp del: dfs.simps)
      qed
    qed
  qed
qed

lemma roots_loop_cycles_update:
  "set (cycles (roots_loop env g depth ns s)) \<subseteq> set c \<Longrightarrow>
   roots_loop env g depth ns (s\<lparr>cycles := c\<rparr>) = (roots_loop env g depth ns s)\<lparr>cycles := c\<rparr>"
proof (induction ns arbitrary: s)
  case Nil
  then show ?case by simp
next
  case (Cons n ns)
  show ?case
  proof (cases "raised s = None \<and> n \<notin> visited s")
    case True
    let ?s0 = "s\<lparr>rec_stack := {}\<rparr>"
    let ?s1 = "dfs env g depth n [] ?s0"
    from True Cons.prems have sub: "set (cycles (roots_loop env g depth ns ?s1)) \<subseteq> set c"
      by (simp del: dfs.simps)
    with roots_loop_cycles_mono[of ?s1 env g depth ns] have "set (cycles ?s1) \<subseteq> set c" by blast
    then have "dfs env g depth n [] (?s0\<lparr>cycles := c\<rparr>) = ?s1\<lparr>cycles := c\<rparr>"
      by (rule dfs_cycles_update(1))
    moreover have "?s0\<lparr>cycles := c\<rparr> = (s\<lparr>cycles := c\<rparr>)\<lparr>rec_stack := {}\<rparr>" by simp
    moreover from Cons.IH[OF sub]
    have "roots_loop env g depth ns (?s1\<lparr>cycles := c\<rparr>) =
            (roots_loop env g depth ns ?s1)\<lparr>cycles := c\<rparr>" .
    ultimately show ?thesis using True by (simp del: dfs.simps)
  next
    case False
    with Cons show ?thesis by (auto simp del: dfs.simps)
  qed
qed

lemma find_circular_dependencies_twice:
  "find_circular_dependencies env (fst (find_circular_dependencies env r)) =
   find_circular_dependencies env r"
proof -
  let ?g = "dependency_graph r"
  let ?s0 = "\<lparr>visited = {}, rec_stack = {}, cycles = circular_dependencies r, raised = None\<rparr>"
  let ?s1 = "roots_loop env ?g (recursion_limit env) (map fst ?g) ?s0"
  have "roots_loop env ?g (recursion_limit env) (map fst ?g) (?s0\<lparr>cycles := cycles ?s1\<rparr>) =
          ?s1\<lparr>cycles := cycles ?s1\<rparr>"
    by (rule roots_loop_cycles_update) simp
  then have "roots_loop env ?g (recursion_limit env) (map fst ?g)
               \<lparr>visited = {}, rec_stack = {}, cycles = cycles ?s1, raised = None\<rparr> = ?s1"
    by simp
  then show ?thesis
    by (simp add: find_circular_dependencies_def Let_def)
qed

text \<open>
  The same for two searches with different numbers of nested calls allowed, when the
  first one has returned without raising: the second one, run on a list that holds every
  cycle of the first, either makes the same steps or is ended by an exception, and in
  both cases leaves the list alone.
\<close>

lemma raised_leave_None: "raised (leave node s) = None \<Longrightarrow> raised s = None"
  by (auto simp: leave_def split: if_splits)

lemma leave_raised: "raised s \<noteq> None \<Longrightarrow> leave node s = s"
  by (simp add: leave_def)

lemma dfs_other_depth:
  "raised (dfs env g depth node pth s) = None \<Longrightarrow>
     set (cycles (dfs env g depth node pth s)) \<subseteq> set c \<Longrightarrow>
     dfs env g depth' node pth (s\<lparr>cycles := c\<rparr>) = (dfs env g depth node pth s)\<lparr>cycles := c\<rparr> \<or>
     (raised (dfs env g depth' node pth (s\<lparr>cycles := c\<rparr>)) \<noteq> None \<and>
      cycles (dfs env g depth' node pth (s\<lparr>cycles := c\<rparr>)) = c)"
  "raised (dfs_loop env g depth pth ns s) = None \<Longrightarrow>
     set (cycles (dfs_loop env g depth pth ns s)) \<subseteq> set c \<Longrightarrow>
     dfs_loop env g depth' pth ns (s\<lparr>cycles := c\<rparr>) =
       (dfs_loop env g depth pth ns s)\<lparr>cycles := c\<rparr> \<or>
     (raised (dfs_loop env g depth' pth ns (s\<lparr>cycles := c\<rparr>)) \<noteq> None \<and>
      cycles (dfs_loop env g depth' pth ns (s\<lparr>cycles := c\<rparr>)) = c)"
proof (induction env g depth node pth s and env g depth pth ns s arbitrary: depth' and depth'
    rule: dfs_dfs_loop.induct)
  case (1 env g node pth s)
  then show ?case by simp
next
  case (2 env g depth node pth s)
  let ?ns = "set_iter env (graph_get g node)"
  let ?l = "dfs_loop env g depth (pth @ [node]) ?ns (enter node s)"
  from "2.prems"(1) have rl: "raised ?l = None" using raised_leave_None by simp
  from "2.prems"(2) have cl: "set (cycles ?l) \<subseteq> set c" by simp
  show ?case
  proof (cases depth')
    case 0
    then show ?thesis by simp
  next
    case (Suc e)
    let ?t = "dfs_loop env g e (pth @ [node]) ?ns ((enter node s)\<lparr>cycles := c\<rparr>)"
    from "2.IH" [OF rl cl, of e]
    have "?t = ?l\<lparr>cycles := c\<rparr> \<or> (raised ?t \<noteq> None \<and> cycles ?t = c)" .
    then show ?thesis
    proof
      assume "?t = ?l\<lparr>cycles := c\<rparr>"
      with Suc show ?thesis by (simp add: enter_cycles_update leave_cycles_update)
    next
      assume a: "raised ?t \<noteq> None \<and> cycles ?t = c"
      then have "leave node ?t = ?t" by (simp add: leave_raised)
      with a Suc show ?thesis by (simp add: enter_cycles_update)
    qed
  qed
next
  case (3 env g depth pth s)
  show ?case by simp
next
  case (4 env g depth pth neighbor rest s)
  have r: "\<not> raised s \<noteq> None"
  proof
    assume "raised s \<noteq> None"
    then have "dfs_loop env g depth pth (neighbor # rest) s = s" by (rule dfs_loop_raised)
    with "4.prems"(1) \<open>raised s \<noteq> None\<close> show False by simp
  qed
  show ?case
  proof (cases "neighbor \<notin> visited s")
    case True
    let ?s1 = "dfs env g depth neighbor pth s"
    let ?t1 = "dfs env g depth' neighbor pth (s\<lparr>cycles := c\<rparr>)"
    from r True "4.prems" have rl: "raised (dfs_loop env g depth pth rest ?s1) = None"
      and sub: "set (cycles (dfs_loop env g depth pth rest ?s1)) \<subseteq> set c"
      by (simp_all del: dfs.simps)
    have r1: "raised ?s1 = None"
    proof (rule ccontr)
      assume "raised ?s1 \<noteq> None"
      then have "dfs_loop env g depth pth rest ?s1 = ?s1" by (rule dfs_loop_raised)
      with rl \<open>raised ?s1 \<noteq> None\<close> show False by simp
    qed
    from sub cycles_mono(2)[of ?s1 env g depth pth rest] have c1: "set (cycles ?s1) \<subseteq> set c"
      by blast
    from "4.IH"(1) [OF r True r1 c1, of depth']
    have "?t1 = ?s1\<lparr>cycles := c\<rparr> \<or> (raised ?t1 \<noteq> None \<and> cycles ?t1 = c)" .
    then show ?thesis
    proof
      assume e: "?t1 = ?s1\<lparr>cycles := c\<rparr>"
      from "4.IH"(2) [OF r True rl sub, of depth']
      have "dfs_loop env g depth' pth rest (?s1\<lparr>cycles := c\<rparr>) =
              (dfs_loop env g depth pth rest ?s1)\<lparr>cycles := c\<rparr> \<or>
            (raised (dfs_loop env g depth' pth rest (?s1\<lparr>cycles := c\<rparr>)) \<noteq> None \<and>
             cycles (dfs_loop env g depth' pth rest (?s1\<lparr>cycles := c\<rparr>)) = c)" .
      with e r True show ?thesis by (simp del: dfs.simps)
    next
      assume a: "raised ?t1 \<noteq> None \<and> cycles ?t1 = c"
      then have "dfs_loop env g depth' pth rest ?t1 = ?t1" by (simp add: dfs_loop_raised)
      with a r True show ?thesis by (simp del: dfs.simps)
    qed
  next
    case v: False
    show ?thesis
    proof (cases "neighbor \<in> rec_stack s")
      case True
      let ?s1 = "found_cycle pth neighbor s"
      from r v True "4.prems" have rl: "raised (dfs_loop env g depth pth rest ?s1) = None"
        and sub: "set (cycles (dfs_loop env g depth pth rest ?s1)) \<subseteq> set c"
        by (simp_all del: dfs.simps)
      from sub cycles_mono(2)[of ?s1 env g depth pth rest] have "set (cycles ?s1) \<subseteq> set c"
        by blast
      then have e: "found_cycle pth neighbor (s\<lparr>cycles := c\<rparr>) = ?s1\<lparr>cycles := c\<rparr>"
        by (rule found_cycle_cycles_update)
      from "4.IH"(3) [of depth'] r v True rl sub
      have "dfs_loop env g depth' pth rest (?s1\<lparr>cycles := c\<rparr>) =
              (dfs_loop env g depth pth rest ?s1)\<lparr>cycles := c\<rparr> \<or>
            (raised (dfs_loop env g depth' pth rest (?s1\<lparr>cycles := c\<rparr>)) \<noteq> None \<and>
             cycles (dfs_loop env g depth' pth rest (?s1\<lparr>cycles := c\<rparr>)) = c)"
        by blast
      with e r v True show ?thesis by (simp del: dfs.simps)
    next
      case False
      from r v False "4.prems" have rl: "raised (dfs_loop env g depth pth rest s) = None"
        and sub: "set (cycles (dfs_loop env g depth pth rest s)) \<subseteq> set c"
        by (simp_all del: dfs.simps)
      from "4.IH"(4) [of depth'] r v False rl sub
      have "dfs_loop env g depth' pth rest (s\<lparr>cycles := c\<rparr>) =
              (dfs_loop env g depth pth rest s)\<lparr>cycles := c\<rparr> \<or>
            (raised (dfs_loop env g depth' pth rest (s\<lparr>cycles := c\<rparr>)) \<noteq> None \<and>
             cycles (dfs_loop env g depth' pth rest (s\<lparr>cycles := c\<rparr>)) = c)"
        by blast
      with r v False show ?thesis by (simp del: dfs.simps)
    qed
  qed
qed

lemma roots_loop_other_depth:
  "raised (roots_loop env g depth ns s) = None \<Longrightarrow>
   set (cycles (roots_loop env g depth ns s)) \<subseteq> set c \<Longrightarrow>
   cycles (roots_loop env g depth' ns (s\<lparr>cycles := c\<rparr>)) = c"
proof (induction ns arbitrary: s)
  case Nil
  then show ?case by simp
next
  case (Cons n ns)
  have r: "raised s = None"
  proof (rule ccontr)
    assume "raised s \<noteq> None"
    then have "roots_loop env g depth (n # ns) s = s" by (rule roots_loop_raised)
    with Cons.prems(1) \<open>raised s \<noteq> None\<close> show False by simp
  qed
  show ?case
  proof (cases "n \<notin> visited s")
    case True
    let ?s0 = "s\<lparr>rec_stack := {}\<rparr>"
    let ?s1 = "dfs env g depth n [] ?s0"
    let ?t1 = "dfs env g depth' n [] ((s\<lparr>cycles := c\<rparr>)\<lparr>rec_stack := {}\<rparr>)"
    from r True Cons.prems have rl: "raised (roots_loop env g depth ns ?s1) = None"
      and sub: "set (cycles (roots_loop env g depth ns ?s1)) \<subseteq> set c"
      by (simp_all del: dfs.simps)
    have r1: "raised ?s1 = None"
    proof (rule ccontr)
      assume "raised ?s1 \<noteq> None"
      then have "roots_loop env g depth ns ?s1 = ?s1" by (rule roots_loop_raised)
      with rl \<open>raised ?s1 \<noteq> None\<close> show False by simp
    qed
    from sub roots_loop_cycles_mono[of ?s1 env g depth ns] have c1: "set (cycles ?s1) \<subseteq> set c"
      by blast
    have sw: "(s\<lparr>cycles := c\<rparr>)\<lparr>rec_stack := {}\<rparr> = ?s0\<lparr>cycles := c\<rparr>" by simp
    from dfs_other_depth(1) [OF r1 c1, of depth']
    have "?t1 = ?s1\<lparr>cycles := c\<rparr> \<or> (raised ?t1 \<noteq> None \<and> cycles ?t1 = c)"
      by (simp only: sw)
    moreover from r True
    have step: "roots_loop env g depth' (n # ns) (s\<lparr>cycles := c\<rparr>) =
                roots_loop env g depth' ns ?t1"
      by (simp del: dfs.simps)
    ultimately show ?thesis
    proof (elim disjE)
      assume e: "?t1 = ?s1\<lparr>cycles := c\<rparr>"
      from Cons.IH [OF rl sub]
      have "cycles (roots_loop env g depth' ns (?s1\<lparr>cycles := c\<rparr>)) = c" .
      then show ?thesis by (simp only: step e)
    next
      assume a: "raised ?t1 \<noteq> None \<and> cycles ?t1 = c"
      then have "roots_loop env g depth' ns ?t1 = ?t1" by (simp add: roots_loop_raised)
      with a show ?thesis by (simp only: step)
    qed
  next
    case False
    with r Cons.prems have rl: "raised (roots_loop env g depth ns s) = None"
      and sub: "set (cycles (roots_loop env g depth ns s)) \<subseteq> set c"
      by (simp_all del: dfs.simps)
    from Cons.IH [OF rl sub] r False show ?thesis by (simp del: dfs.simps)
  qed
qed

lemma find_circular_dependencies_after_complete_run:
  assumes "snd (find_circular_dependencies env r) = None"
  shows "fst (find_circular_dependencies (env\<lparr>recursion_limit := limit\<rparr>)
                (fst (find_circular_dependencies env r))) =
         fst (find_circular_dependencies env r)"
proof -
  let ?g = "dependency_graph r"
  let ?s0 = "\<lparr>visited = {}, rec_stack = {}, cycles = circular_dependencies r, raised = None\<rparr>"
  let ?s1 = "roots_loop env ?g (recursion_limit env) (map fst ?g) ?s0"
  have env_eq: "\<And>d ns s. roots_loop (env\<lparr>recursion_limit := limit\<rparr>) ?g d ns s =
                           roots_loop env ?g d ns s"
  proof -
    have it: "set_iter (env\<lparr>recursion_limit := limit\<rparr>) = set_iter env"
      by (simp add: set_iter_def fun_eq_iff)
    have d: "(\<forall>node pth s. dfs (env\<lparr>recursion_limit := limit\<rparr>) ?g d node pth s =
                            dfs env ?g d node pth s) \<and>
             (\<forall>pth ns s. dfs_loop (env\<lparr>recursion_limit := limit\<rparr>) ?g d pth ns s =
                          dfs_loop env ?g d pth ns s)" for d
    proof (induction d)
      case 0
      have "dfs_loop (env\<lparr>recursion_limit := limit\<rparr>) ?g 0 pth ns s = dfs_loop env ?g 0 pth ns s"
        for pth ns s
        by (induction ns arbitrary: s) simp_all
      then show ?case by simp
    next
      case (Suc d)
      have l: "dfs_loop (env\<lparr>recursion_limit := limit\<rparr>) ?g (Suc d) pth ns s =
               dfs_loop env ?g (Suc d) pth ns s"
        if "\<And>node pth s. dfs (env\<lparr>recursion_limit := limit\<rparr>) ?g (Suc d) node pth s =
                           dfs env ?g (Suc d) node pth s" for pth ns s
        using that by (induction ns arbitrary: s) (simp_all del: dfs.simps)
      have "dfs (env\<lparr>recursion_limit := limit\<rparr>) ?g (Suc d) node pth s =
            dfs env ?g (Suc d) node pth s" for node pth s
        using Suc by (simp add: it)
      with l show ?case by blast
    qed
    show "roots_loop (env\<lparr>recursion_limit := limit\<rparr>) ?g d ns s = roots_loop env ?g d ns s"
      for d ns s
      using d [of d] by (induction ns arbitrary: s) (simp_all del: dfs.simps)
  qed
  from assms have rl: "raised ?s1 = None"
    by (simp add: find_circular_dependencies_def Let_def)
  have "cycles (roots_loop env ?g limit (map fst ?g) (?s0\<lparr>cycles := cycles ?s1\<rparr>)) = cycles ?s1"
    using rl by (rule roots_loop_other_depth) simp
  then show ?thesis
    by (simp add: find_circular_dependencies_def Let_def env_eq)
qed

lemma find_circular_three_cycle:
  assumes "distinct [a, b, c]" "circular_dependencies r = []" "3 \<le> recursion_limit env"
    "dependency_graph r \<in> set [[(a, [b]), (b, [c]), (c, [a])], [(a, [b]), (c, [a]), (b, [c])]]"
  shows "find_circular_dependencies env r = (r\<lparr>circular_dependencies := [[a, b, c, a]]\<rparr>, None)"
proof -
  from assms(3) obtain k where "recursion_limit env = Suc (Suc (Suc k))"
    by (metis add_Suc_right le_Suc_ex numeral_3_eq_3 add_Suc)
  with assms(1,2,4) show ?thesis
    by (auto simp: find_circular_dependencies_def Let_def graph_get_def enter_def leave_def
          found_cycle_def)
qed

lemma find_circular_chain:
  assumes "distinct [a, b, c]" "circular_dependencies r = []" "3 \<le> recursion_limit env"
    "dependency_graph r \<in> set [[(a, [b]), (b, [c])], [(b, [c]), (a, [b])]]"
  shows "find_circular_dependencies env r = (r, None)"
proof -
  from assms(3) obtain k where "recursion_limit env = Suc (Suc (Suc k))"
    by (metis add_Suc_right le_Suc_ex numeral_3_eq_3 add_Suc)
  with assms(1,2,4) show ?thesis
    by (auto simp: find_circular_dependencies_def Let_def graph_get_def enter_def leave_def
          found_cycle_def)
qed

text \<open>
  C3: on the graph with exactly the edges \<open>A \<rightarrow> B\<close>, \<open>B \<rightarrow> C\<close>, \<open>C \<rightarrow> A\<close> (three different
  nodes, \<open>A\<close> the first key of the graph, so the first root explored) and an empty
  cycle list, the detector ends with exactly one cycle, the list \<open>[A, B, C, A]\<close>; on
  the graph with exactly the edges \<open>A \<rightarrow> B\<close>, \<open>B \<rightarrow> C\<close> (the keys in either order) it
  leaves the cycle list empty. Neither run raises. The search goes three calls deep,
  which the interpreter has to allow.
\<close>

theorem C3_cycle_detector_examples:
  assumes "distinct [a, b, c]" and "circular_dependencies r = []"
    and "3 \<le> recursion_limit env"
  shows
    "(dependency_graph r \<in> set [[(a, [b]), (b, [c]), (c, [a])], [(a, [b]), (c, [a]), (b, [c])]]
        \<longrightarrow> find_circular_dependencies env r =
              (r\<lparr>circular_dependencies := [[a, b, c, a]]\<rparr>, None)) \<and>
     (dependency_graph r \<in> set [[(a, [b]), (b, [c])], [(b, [c]), (a, [b])]]
        \<longrightarrow> find_circular_dependencies env r = (r\<lparr>circular_dependencies := []\<rparr>, None))"
proof (intro conjI impI)
  assume "dependency_graph r \<in> set [[(a, [b]), (b, [c]), (c, [a])], [(a, [b]), (c, [a]), (b, [c])]]"
  with assms
  show "find_circular_dependencies env r = (r\<lparr>circular_dependencies := [[a, b, c, a]]\<rparr>, None)"
    by (rule find_circular_three_cycle)
next
  assume "dependency_graph r \<in> set [[(a, [b]), (b, [c])], [(b, [c]), (a, [b])]]"
  with assms have "find_circular_dependencies env r = (r, None)"
    by (rule find_circular_chain)
  with assms(2) show "find_circular_dependencies env r = (r\<lparr>circular_dependencies := []\<rparr>, None)"
    by simp
qed

theorem C3_cycle_detector_examples_witness:
  "distinct [''A'', ''B'', ''C''] \<and> 3 \<le> recursion_limit sample_env \<and>
   circular_dependencies
     (new_report\<lparr>dependency_graph := [(''A'', [''B'']), (''B'', [''C'']), (''C'', [''A''])]\<rparr>) = [] \<and>
   circular_dependencies
     (fst (find_circular_dependencies sample_env
        (new_report\<lparr>dependency_graph := [(''A'', [''B'']), (''B'', [''C'']), (''C'', [''A''])]\<rparr>)))
     = [[''A'', ''B'', ''C'', ''A'']] \<and>
   circular_dependencies
     (fst (find_circular_dependencies sample_env
        (new_report\<lparr>dependency_graph := [(''A'', [''B'']), (''B'', [''C''])]\<rparr>))) = []"
proof -
  have d: "distinct [''A'', ''B'', ''C'']" by simp
  have l: "3 \<le> recursion_limit sample_env" by (simp add: sample_env_def)
  have e1: "circular_dependencies
     (new_report\<lparr>dependency_graph := [(''A'', [''B'']), (''B'', [''C'']), (''C'', [''A''])]\<rparr>) = []"
    by (simp add: new_report_def)
  have e2: "circular_dependencies
     (new_report\<lparr>dependency_graph := [(''A'', [''B'']), (''B'', [''C''])]\<rparr>) = []"
    by (simp add: new_report_def)
  from C3_cycle_detector_examples [OF d e1 l]
  have 1: "circular_dependencies
     (fst (find_circular_dependencies sample_env
        (new_report\<lparr>dependency_graph := [(''A'', [''B'']), (''B'', [''C'']), (''C'', [''A''])]\<rparr>)))
     = [[''A'', ''B'', ''C'', ''A'']]"
    by simp
  from C3_cycle_detector_examples [OF d e2 l]
  have 2: "circular_dependencies
     (fst (find_circular_dependencies sample_env
        (new_report\<lparr>dependency_graph := [(''A'', [''B'']), (''B'', [''C''])]\<rparr>))) = []"
    by simp
  from d l e1 1 2 show ?thesis by blast
qed

text \<open>
  C5: for every graph, every cycle list to start with and every order in which the sets
  of targets are iterated, the detector run a second time, in succession, on the report
  that the first run left, with the graph unmodified and as many nested calls allowed as
  in the first run, returns that report again and ends as the first run ended: the
  cycle list after the second run is the list after the first run, entry by entry, and
  nothing is added. This holds also when \<^verbatim>\<open>RecursionError\<close> ends both runs, the only
  exception that the detector raises. When the first run has returned without raising,
  which it does whenever the graph has no more nodes than nested calls are allowed, a
  second run adds nothing however many nested calls it is allowed.
\<close>

theorem C5_second_run_adds_nothing:
  "find_circular_dependencies env (fst (find_circular_dependencies env r)) =
     find_circular_dependencies env r \<and>
   circular_dependencies
     (fst (find_circular_dependencies env (fst (find_circular_dependencies env r)))) =
     circular_dependencies (fst (find_circular_dependencies env r)) \<and>
   dependency_graph (fst (find_circular_dependencies env r)) = dependency_graph r \<and>
   (snd (find_circular_dependencies env r) = None \<longrightarrow>
      fst (find_circular_dependencies (env\<lparr>recursion_limit := limit\<rparr>)
             (fst (find_circular_dependencies env r))) =
      fst (find_circular_dependencies env r)) \<and>
   (snd (find_circular_dependencies env r) = None \<or>
    snd (find_circular_dependencies env r) = Some RecursionError) \<and>
   (card (nodes_of (dependency_graph r)) \<le> recursion_limit env \<longrightarrow>
      snd (find_circular_dependencies env r) = None)"
proof (intro conjI impI)
  show "find_circular_dependencies env (fst (find_circular_dependencies env r)) =
     find_circular_dependencies env r"
    by (rule find_circular_dependencies_twice)
  then show "circular_dependencies
     (fst (find_circular_dependencies env (fst (find_circular_dependencies env r)))) =
     circular_dependencies (fst (find_circular_dependencies env r))"
    by simp
  show "dependency_graph (fst (find_circular_dependencies env r)) = dependency_graph r"
    by (simp add: find_circular_dependencies_def Let_def)
  show "fst (find_circular_dependencies (env\<lparr>recursion_limit := limit\<rparr>)
             (fst (find_circular_dependencies env r))) =
      fst (find_circular_dependencies env r)"
    if "snd (find_circular_dependencies env r) = None"
    using that by (rule find_circular_dependencies_after_complete_run)
  show "snd (find_circular_dependencies env r) = None \<or>
    snd (find_circular_dependencies env r) = Some RecursionError"
    by (rule find_circular_dependencies_raises_only_recursion_error)
  show "snd (find_circular_dependencies env r) = None"
    if "card (nodes_of (dependency_graph r)) \<le> recursion_limit env"
    using that by (rule find_circular_dependencies_no_raise)
qed

theorem C5_second_run_adds_nothing_witness:
  "card (nodes_of [(''A'', [''B'', ''C'']), (''B'', [''A'']), (''C'', [''A''])]) \<le>
     recursion_limit sample_env \<and>
   find_circular_dependencies sample_env
     (new_report\<lparr>dependency_graph :=
        [(''A'', [''B'', ''C'']), (''B'', [''A'']), (''C'', [''A''])]\<rparr>) =
     (new_report\<lparr>dependency_graph :=
        [(''A'', [''B'', ''C'']), (''B'', [''A'']), (''C'', [''A''])],
        circular_dependencies := [[''A'', ''C'', ''A''], [''A'', ''B'', ''A'']]\<rparr>, None) \<and>
   circular_dependencies
     (fst (find_circular_dependencies sample_env (fst (find_circular_dependencies sample_env
        (new_report\<lparr>dependency_graph :=
           [(''A'', [''B'', ''C'']), (''B'', [''A'']), (''C'', [''A''])]\<rparr>))))) =
     [[''A'', ''C'', ''A''], [''A'', ''B'', ''A'']] \<and>
   circular_dependencies
     (fst (find_circular_dependencies (sample_env\<lparr>recursion_limit := 1\<rparr>)
        (fst (find_circular_dependencies sample_env
          (new_report\<lparr>dependency_graph :=
             [(''A'', [''B'', ''C'']), (''B'', [''A'']), (''C'', [''A''])]\<rparr>))))) =
     [[''A'', ''C'', ''A''], [''A'', ''B'', ''A'']]"
proof -
  let ?r = "new_report\<lparr>dependency_graph :=
              [(''A'', [''B'', ''C'']), (''B'', [''A'']), (''C'', [''A''])]\<rparr>"
  have n: "card (nodes_of [(''A'', [''B'', ''C'']), (''B'', [''A'']), (''C'', [''A''])]) \<le>
             recursion_limit sample_env"
    by (simp add: nodes_of_def sample_env_def card_insert_if)
  have f: "circular_dependencies (fst (find_circular_dependencies sample_env ?r)) =
             [[''A'', ''C'', ''A''], [''A'', ''B'', ''A'']]"
    by code_simp
  have g: "dependency_graph ?r = [(''A'', [''B'', ''C'']), (''B'', [''A'']), (''C'', [''A''])]"
    by simp
  note t = C5_second_run_adds_nothing [of sample_env ?r 1]
  from t n g have ok: "snd (find_circular_dependencies sample_env ?r) = None"
    by (simp only:)
  have fr: "fst (find_circular_dependencies sample_env ?r) =
      ?r\<lparr>circular_dependencies := [[''A'', ''C'', ''A''], [''A'', ''B'', ''A'']]\<rparr>"
    using f by (simp add: find_circular_dependencies_def Let_def)
  from ok fr have 1: "find_circular_dependencies sample_env ?r =
      (?r\<lparr>circular_dependencies := [[''A'', ''C'', ''A''], [''A'', ''B'', ''A'']]\<rparr>, None)"
    by (simp add: prod_eq_iff)
  from t f have 2: "circular_dependencies
     (fst (find_circular_dependencies sample_env (fst (find_circular_dependencies sample_env ?r)))) =
     [[''A'', ''C'', ''A''], [''A'', ''B'', ''A'']]"
    by (simp only:)
  from t ok have "fst (find_circular_dependencies (sample_env\<lparr>recursion_limit := 1\<rparr>)
             (fst (find_circular_dependencies sample_env ?r))) =
      fst (find_circular_dependencies sample_env ?r)"
    by blast
  with f have 3: "circular_dependencies
     (fst (find_circular_dependencies (sample_env\<lparr>recursion_limit := 1\<rparr>)
        (fst (find_circular_dependencies sample_env ?r)))) =
     [[''A'', ''C'', ''A''], [''A'', ''B'', ''A'']]"
    by (simp only:)
  from n 1 2 3 show ?thesis by simp
qed

text \<open>
  What the two runs of C5 have in common is the number of nested calls they are allowed,
  as two calls in succession from one place are. Only a run that is allowed to recurse
  deeper than an earlier run that \<^verbatim>\<open>RecursionError\<close> has ended can reach what the
  earlier run did not: on the two-node cycle, a run allowed one call raises and finds
  nothing, and a later run allowed two calls finds the cycle.
\<close>

lemma deeper_run_after_recursion_error:
  "find_circular_dependencies (sample_env\<lparr>recursion_limit := 1\<rparr>)
     (new_report\<lparr>dependency_graph := [(''A'', [''B'']), (''B'', [''A''])]\<rparr>) =
     (new_report\<lparr>dependency_graph := [(''A'', [''B'']), (''B'', [''A''])]\<rparr>,
      Some RecursionError) \<and>
   find_circular_dependencies (sample_env\<lparr>recursion_limit := 2\<rparr>)
     (new_report\<lparr>dependency_graph := [(''A'', [''B'']), (''B'', [''A''])]\<rparr>) =
     (new_report\<lparr>dependency_graph := [(''A'', [''B'']), (''B'', [''A''])],
                  circular_dependencies := [[''A'', ''B'', ''A'']]\<rparr>, None)"
  by code_simp

subsection \<open>The three-file report\<close>

lemma three_files_by_file:
  "dependencies_by_file three_files_report =
     [(''f1.ts'', [\<lparr>package = ''react'', import_type = ''static'', file_path = ''f1.ts'',
                     line_number = JNum 0, is_external = True\<rparr>]),
      (''f2.ts'', [\<lparr>package = ''react'', import_type = ''static'', file_path = ''f2.ts'',
                     line_number = JNum 0, is_external = True\<rparr>]),
      (''f3.ts'', [\<lparr>package = ''react'', import_type = ''static'', file_path = ''f3.ts'',
                     line_number = JNum 0, is_external = True\<rparr>])]"
  by (simp add: three_files_report_def add_dep_def new_report_def Let_def)

subsection \<open>Usage counts of the text report\<close>

lemma length_filter_concat:
  "length (filter P (concat (map snd xs))) = sum_list (map (\<lambda>x. length (filter P (snd x))) xs)"
  by (induction xs) simp_all

lemma usage_count_sum:
  "usage_count r pkg =
     sum_list (map (\<lambda>x. length (filter (\<lambda>dep. package dep = pkg) (snd x)))
                   (dependencies_by_file r))"
  unfolding usage_count_def all_records_def by (rule length_filter_concat)

lemma count_step:
  fixes c l t :: nat
  assumes "l \<le> t" "t = l \<longleftrightarrow> A"
  shows "(if 0 < c then Suc l else l) \<le> c + t \<and>
         (c + t = (if 0 < c then Suc l else l) \<longleftrightarrow> c \<le> 1 \<and> A)"
  using assms by (cases "c = 0") auto

lemma count_files_le_records:
  fixes P :: "'a \<Rightarrow> bool"
  shows "length (filter (\<lambda>x. list_ex P (snd x)) xs) \<le>
           sum_list (map (\<lambda>x. length (filter P (snd x))) xs) \<and>
         (sum_list (map (\<lambda>x. length (filter P (snd x))) xs) =
            length (filter (\<lambda>x. list_ex P (snd x)) xs) \<longleftrightarrow>
          (\<forall>x \<in> set xs. length (filter P (snd x)) \<le> 1))"
proof (induction xs)
  case Nil
  then show ?case by simp
next
  case (Cons x xs)
  let ?c = "length (filter P (snd x))"
  let ?l = "length (filter (\<lambda>x. list_ex P (snd x)) xs)"
  let ?t = "sum_list (map (\<lambda>x. length (filter P (snd x))) xs)"
  have pos: "list_ex P (snd x) \<longleftrightarrow> 0 < ?c"
    by (auto simp: list_ex_iff filter_empty_conv)
  from Cons have "?l \<le> ?t" and "?t = ?l \<longleftrightarrow> (\<forall>x \<in> set xs. length (filter P (snd x)) \<le> 1)"
    by blast+
  then have "(if 0 < ?c then Suc ?l else ?l) \<le> ?c + ?t \<and>
         (?c + ?t = (if 0 < ?c then Suc ?l else ?l) \<longleftrightarrow>
            ?c \<le> 1 \<and> (\<forall>x \<in> set xs. length (filter P (snd x)) \<le> 1))"
    by (rule count_step)
  then have step: "(if 0 < ?c then Suc ?l else ?l) \<le> ?c + ?t \<and>
         (?c + ?t = (if 0 < ?c then Suc ?l else ?l) \<longleftrightarrow>
            ?c \<le> 1 \<and> (\<forall>x \<in> set xs. length (filter P (snd x)) \<le> 1))" .
  show ?case
  proof (cases "list_ex P (snd x)")
    case True
    with pos have "0 < ?c" by blast
    with step have "Suc ?l \<le> ?c + ?t \<and>
         (?c + ?t = Suc ?l \<longleftrightarrow>
            ?c \<le> 1 \<and> (\<forall>x \<in> set xs. length (filter P (snd x)) \<le> 1))"
      by (simp only: if_True)
    with True show ?thesis by simp
  next
    case False
    with pos have "\<not> 0 < ?c" by blast
    with step have "?l \<le> ?c + ?t \<and>
         (?c + ?t = ?l \<longleftrightarrow>
            ?c \<le> 1 \<and> (\<forall>x \<in> set xs. length (filter P (snd x)) \<le> 1))"
      by (simp only: if_False)
    with False show ?thesis by simp
  qed
qed

text \<open>
  C4 (as stated): the usage count printed for an external package is the number of
  distinct files with a record for that package. It is not: in the report of the sample
  project the only file that refers to \<open>react\<close> does so twice, and the package is
  printed with the count 2.
\<close>

theorem C4_counterexample:
  "package_section
     (generate_report_text ''proj''
        (fst (analyze_directory sample_env ''proj'' None None new_report))) = [(''react'', 2)] \<and>
   files_referencing (fst (analyze_directory sample_env ''proj'' None None new_report)) ''react''
     = 1"
  unfolding analyze_sample_directory fst_conv
  by code_simp

text \<open>
  C4 (amended): the usage count printed for an external package is the number of
  records, over all files, whose package is that package. It is at least the number of
  distinct files that refer to the package, and equal to it exactly when no file holds
  more than one record for the package; so a package referenced once from each of three
  files is printed with the count 3.
\<close>

theorem C4_usage_count:
  assumes "(pkg, n) \<in> set (package_section (generate_report_text root_dir r))"
  shows "pkg \<in> external_packages r \<and>
         n = length (filter (\<lambda>dep. package dep = pkg) (all_records r)) \<and>
         files_referencing r pkg \<le> n \<and>
         (n = files_referencing r pkg \<longleftrightarrow>
            (\<forall>x \<in> set (dependencies_by_file r).
               length (filter (\<lambda>dep. package dep = pkg) (snd x)) \<le> 1))"
proof -
  have fin: "finite (external_packages r)" by (simp add: external_packages_def)
  from assms have "(pkg, n) \<in> set (external_package_lines r)"
    by (simp add: generate_report_text_def)
  with fin have p: "pkg \<in> external_packages r" and n: "n = usage_count r pkg"
    by (auto simp: external_package_lines_def)
  from n have n': "n = sum_list (map (\<lambda>x. length (filter (\<lambda>dep. package dep = pkg) (snd x)))
                   (dependencies_by_file r))"
    by (simp add: usage_count_sum)
  from count_files_le_records [of "\<lambda>dep. package dep = pkg" "dependencies_by_file r"] n' p n
  show ?thesis by (simp add: files_referencing_def usage_count_def)
qed

theorem C4_usage_count_witness:
  "(''react'', 3) \<in> set (package_section (generate_report_text ''proj'' three_files_report)) \<and>
   files_referencing three_files_report ''react'' = 3 \<and>
   map fst (dependencies_by_file three_files_report) = [''f1.ts'', ''f2.ts'', ''f3.ts'']"
proof -
  have a: "(''react'', 3) \<in> set (package_section (generate_report_text ''proj'' three_files_report))"
    by code_simp
  have b: "map fst (dependencies_by_file three_files_report) = [''f1.ts'', ''f2.ts'', ''f3.ts'']"
    by code_simp
  have c: "\<forall>x \<in> set (dependencies_by_file three_files_report).
               length (filter (\<lambda>dep. package dep = ''react'') (snd x)) \<le> 1"
    by code_simp
  from C4_usage_count [OF a] c have "files_referencing three_files_report ''react'' = 3"
    by simp
  with a b show ?thesis by blast
qed

subsection \<open>The ranking of files\<close>

lemma sorted_reverse_descending:
  "sorted_wrt (\<lambda>x y. key y \<le> key x) (sorted_reverse key xs)"
proof -
  have "sorted (map key (sort_key key (rev xs)))" by (rule sorted_sort_key)
  then have "sorted_wrt (\<lambda>x y. key x \<le> key y) (sort_key key (rev xs))"
    by (simp add: sorted_map)
  then show ?thesis
    unfolding sorted_reverse_def by (simp add: sorted_wrt_rev)
qed

lemma sorted_reverse_stable:
  "filter (\<lambda>x. key x = k) (sorted_reverse key xs) = filter (\<lambda>x. key x = k) xs"
proof -
  have "filter (\<lambda>x. key x = k) (sort_key key (rev xs)) = filter (\<lambda>x. key x = k) (rev xs)"
    by (rule sort_key_stable)
  then show ?thesis
    unfolding sorted_reverse_def by (simp add: rev_filter [symmetric])
qed

lemma mset_sorted_reverse: "mset (sorted_reverse key xs) = mset xs"
  by (simp add: sorted_reverse_def)

lemma filter_take_prefix: "\<exists>m. filter P (take n xs) = take m (filter P xs)"
proof (induction xs arbitrary: n)
  case Nil
  then show ?case by simp
next
  case (Cons x xs)
  show ?case
  proof (cases n)
    case 0
    then show ?thesis by (intro exI [of _ 0]) simp
  next
    case (Suc n')
    from Cons [of n'] obtain m where m: "filter P (take n' xs) = take m (filter P xs)" ..
    show ?thesis
    proof (cases "P x")
      case True
      with Suc m show ?thesis by (intro exI [of _ "Suc m"]) simp
    next
      case False
      with Suc m show ?thesis by (intro exI [of _ m]) simp
    qed
  qed
qed

text \<open>
  C8 (as stated): the ranking is by descending fan-out, the number of distinct outgoing
  edges of the file's node. It is not: in the report of the sample project \<open>a.ts\<close>, with
  two external records and no edge, is ranked before \<open>b.ts\<close>, with one edge.
\<close>

theorem C8_counterexample:
  "top_section
     (generate_report_text ''proj''
        (fst (analyze_directory sample_env ''proj'' None None new_report))) =
     [(''proj/a.ts'', 2), (''proj/b.ts'', 1)] \<and>
   fan_out (fst (analyze_directory sample_env ''proj'' None None new_report)) ''proj/a.ts'' = 0 \<and>
   fan_out (fst (analyze_directory sample_env ''proj'' None None new_report)) ''proj/b.ts'' = 1"
  unfolding analyze_sample_directory fst_conv
  by (simp add: generate_report_text_def top_files_def ranked_files_def sorted_reverse_def
        fan_out_def graph_get_def sample_report_def)

text \<open>
  C8 (amended): the ranking lists at most ten files, the first ten of the files of the
  report put in descending order of the number of records stored for the file (external
  and internal, repeated references counted), and files with equal numbers appear in
  their input order, the order of \<^verbatim>\<open>dependencies_by_file\<close>.
\<close>

theorem C8_file_ranking:
  "top_files r = take 10 (ranked_files r) \<and>
   mset (ranked_files r) = mset (dependencies_by_file r) \<and>
   sorted_wrt (\<lambda>x y. length (snd y) \<le> length (snd x)) (ranked_files r) \<and>
   filter (\<lambda>x. length (snd x) = k) (ranked_files r) =
     filter (\<lambda>x. length (snd x) = k) (dependencies_by_file r) \<and>
   sorted_wrt (\<lambda>x y. length (snd y) \<le> length (snd x)) (top_files r) \<and>
   (\<exists>m. filter (\<lambda>x. length (snd x) = k) (top_files r) =
          take m (filter (\<lambda>x. length (snd x) = k) (dependencies_by_file r))) \<and>
   top_section (generate_report_text root_dir r) =
     map (\<lambda>x. (fst x, length (snd x))) (top_files r)"
proof -
  let ?key = "\<lambda>x :: string \<times> DependencyInfo list. length (snd x)"
  have d: "sorted_wrt (\<lambda>x y. ?key y \<le> ?key x) (ranked_files r)"
    unfolding ranked_files_def by (rule sorted_reverse_descending)
  have s: "filter (\<lambda>x. ?key x = k) (ranked_files r) =
           filter (\<lambda>x. ?key x = k) (dependencies_by_file r)"
    unfolding ranked_files_def by (rule sorted_reverse_stable)
  have m: "mset (ranked_files r) = mset (dependencies_by_file r)"
    unfolding ranked_files_def by (rule mset_sorted_reverse)
  from d have dt: "sorted_wrt (\<lambda>x y. ?key y \<le> ?key x) (top_files r)"
    unfolding top_files_def by (rule sorted_wrt_take)
  from filter_take_prefix [of "\<lambda>x. ?key x = k" 10 "ranked_files r"] s
  have p: "\<exists>m. filter (\<lambda>x. ?key x = k) (top_files r) =
               take m (filter (\<lambda>x. ?key x = k) (dependencies_by_file r))"
    by (simp add: top_files_def)
  from d s m dt p show ?thesis
    by (simp add: top_files_def generate_report_text_def)
qed

theorem C8_file_ranking_witness:
  "map (\<lambda>x. (fst x, length (snd x))) (top_files sample_report) =
     [(''proj/a.ts'', 2), (''proj/b.ts'', 1)] \<and>
   map fst (top_files three_files_report) = [''f1.ts'', ''f2.ts'', ''f3.ts'']"
proof -
  have a: "map (\<lambda>x. (fst x, length (snd x))) (top_files sample_report) =
     [(''proj/a.ts'', 2), (''proj/b.ts'', 1)]"
    by (simp add: top_files_def ranked_files_def sorted_reverse_def sample_report_def)
  have one: "\<forall>x \<in> set (dependencies_by_file three_files_report). length (snd x) = 1"
    by (simp add: three_files_by_file)
  have c: "map fst (dependencies_by_file three_files_report) = [''f1.ts'', ''f2.ts'', ''f3.ts'']"
    by (simp add: three_files_by_file)
  from C8_file_ranking [of three_files_report 1]
  have t: "top_files three_files_report = take 10 (ranked_files three_files_report)"
    and m: "mset (ranked_files three_files_report) = mset (dependencies_by_file three_files_report)"
    and f: "filter (\<lambda>x. length (snd x) = 1) (ranked_files three_files_report) =
            filter (\<lambda>x. length (snd x) = 1) (dependencies_by_file three_files_report)"
    by blast+
  from m have "set (ranked_files three_files_report) = set (dependencies_by_file three_files_report)"
    by (rule mset_eq_setD)
  with one have "\<forall>x \<in> set (ranked_files three_files_report). length (snd x) = 1"
    by blast
  then have e1: "filter (\<lambda>x. length (snd x) = 1) (ranked_files three_files_report) =
               ranked_files three_files_report"
    by (simp only: filter_id_conv)
  from one have e2: "filter (\<lambda>x. length (snd x) = 1) (dependencies_by_file three_files_report) =
               dependencies_by_file three_files_report"
    by (simp only: filter_id_conv)
  have "ranked_files three_files_report =
          filter (\<lambda>x. length (snd x) = 1) (ranked_files three_files_report)"
    using e1 by (rule sym)
  also have "\<dots> = filter (\<lambda>x. length (snd x) = 1) (dependencies_by_file three_files_report)"
    by (rule f)
  also have "\<dots> = dependencies_by_file three_files_report"
    by (rule e2)
  finally have r: "ranked_files three_files_report = dependencies_by_file three_files_report" .
  from t have "top_files three_files_report = take 10 (dependencies_by_file three_files_report)"
    unfolding r .
  then have "map fst (top_files three_files_report) = [''f1.ts'', ''f2.ts'', ''f3.ts'']"
    by (simp add: three_files_by_file)
  with a show ?thesis by blast
qed

subsection \<open>A root directory that does not exist\<close>





subsection \<open>The walk as a sequence of calls\<close>

lemma analyze_calls_Nil: "analyze_calls r [] = r"
  by (simp add: analyze_calls_def)
lemma analyze_calls_Cons:
  "analyze_calls r ((env, fp) # calls) = analyze_calls (fst (analyze_file env fp r)) calls"
  by (simp add: analyze_calls_def)
lemma analyze_calls_append:
  "analyze_calls (analyze_calls r xs) ys = analyze_calls r (xs @ ys)"
  by (simp add: analyze_calls_def)

lemma analyze_files_calls:
  "\<exists>calls. fst (analyze_files env root names st) = analyze_calls (fst st) calls"
proof (induction names arbitrary: st)
  case Nil
  have "fst (analyze_files env root [] st) = analyze_calls (fst st) []"
    by (simp only: analyze_files.simps analyze_calls_Nil)
  then show ?case ..
next
  case (Cons n names)
  show ?case
  proof (cases "snd st \<noteq> None")
    case True
    then have "analyze_files env root (n # names) st = st" by simp
    then have "fst (analyze_files env root (n # names) st) = analyze_calls (fst st) []"
      by (simp only: analyze_calls_Nil)
    then show ?thesis ..
  next
    case no_error: False
    show ?thesis
    proof (cases "suffix (path_div root n) \<in> set [''.py'', ''.ts'', ''.tsx'', ''.js'', ''.jsx'']")
      case True
      let ?st1 = "analyze_file env (path_div root n) (fst st)"
      from no_error True
      have step: "analyze_files env root (n # names) st = analyze_files env root names ?st1"
        by simp
      from Cons [of ?st1] obtain calls where
        "fst (analyze_files env root names ?st1) = analyze_calls (fst ?st1) calls" ..
      then have "fst (analyze_files env root (n # names) st) =
          analyze_calls (fst st) ((env, path_div root n) # calls)"
        by (simp only: step analyze_calls_Cons)
      then show ?thesis ..
    next
      case False
      with no_error
      have step: "analyze_files env root (n # names) st = analyze_files env root names st"
        by simp
      from Cons [of st] show ?thesis by (simp only: step)
    qed
  qed
qed

lemma analyze_tree_calls:
  "\<exists>calls. fst (analyze_tree env skip_dirs root t st) = analyze_calls (fst st) calls"
  "\<exists>calls. fst (analyze_subdirs env skip_dirs root entries st) = analyze_calls (fst st) calls"
proof (induction env skip_dirs root t st and env skip_dirs root entries st
    rule: analyze_tree_analyze_subdirs.induct)
  case (1 env skip_dirs root st)
  have "fst (analyze_tree env skip_dirs root File st) = analyze_calls (fst st) []"
    by (simp only: analyze_tree.simps analyze_calls_Nil)
  then show ?case ..
next
  case (2 env skip_dirs root entries st)
  let ?st1 = "analyze_files env root (map fst (filter (\<lambda>e. snd e = File) entries)) st"
  from analyze_files_calls obtain c1 where c1: "fst ?st1 = analyze_calls (fst st) c1" by blast
  from "2.IH" obtain c2 where
    "fst (analyze_subdirs env skip_dirs root entries ?st1) = analyze_calls (fst ?st1) c2" ..
  then have "fst (analyze_tree env skip_dirs root (Dir entries) st) =
      analyze_calls (fst st) (c1 @ c2)"
    by (simp only: analyze_tree.simps c1 analyze_calls_append)
  then show ?case ..
next
  case (3 env skip_dirs root st)
  have "fst (analyze_subdirs env skip_dirs root [] st) = analyze_calls (fst st) []"
    by (simp only: analyze_subdirs.simps analyze_calls_Nil)
  then show ?case ..
next
  case (4 env skip_dirs root d t rest st)
  show ?case
  proof (cases "snd st \<noteq> None")
    case True
    then have "analyze_subdirs env skip_dirs root ((d, t) # rest) st = st" by simp
    then have "fst (analyze_subdirs env skip_dirs root ((d, t) # rest) st) =
        analyze_calls (fst st) []"
      by (simp only: analyze_calls_Nil)
    then show ?thesis ..
  next
    case no_error: False
    show ?thesis
    proof (cases "t \<noteq> File \<and> d \<notin> skip_dirs \<and> \<not> startswith d ''.''")
      case True
      let ?st1 = "analyze_tree env skip_dirs (path_join root d) t st"
      from no_error True
      have step: "analyze_subdirs env skip_dirs root ((d, t) # rest) st =
          analyze_subdirs env skip_dirs root rest ?st1"
        by simp
      from "4.IH"(1) [OF no_error True] obtain c1 where
        c1: "fst ?st1 = analyze_calls (fst st) c1" ..
      from "4.IH"(2) [OF no_error True] obtain c2 where
        "fst (analyze_subdirs env skip_dirs root rest ?st1) = analyze_calls (fst ?st1) c2" ..
      then have "fst (analyze_subdirs env skip_dirs root ((d, t) # rest) st) =
          analyze_calls (fst st) (c1 @ c2)"
        by (simp only: step c1 analyze_calls_append)
      then show ?thesis ..
    next
      case False
      with no_error
      have step: "analyze_subdirs env skip_dirs root ((d, t) # rest) st =
          analyze_subdirs env skip_dirs root rest st"
        by auto
      from "4.IH"(3) [OF no_error False] show ?thesis by (simp only: step)
    qed
  qed
qed

text \<open>The report that \<^verbatim>\<open>analyze_directory\<close> leaves is the report of a sequence of calls
  of \<^verbatim>\<open>analyze_file\<close>, so what holds after every such sequence holds after a walk.\<close>

lemma analyze_directory_calls:
  "\<exists>calls. fst (analyze_directory env root_dir dir_arg skip_arg r) = analyze_calls r calls"
proof (cases "fs_lookup env (case dir_arg of None \<Rightarrow> root_dir | Some d \<Rightarrow> d)")
  case None
  then have "fst (analyze_directory env root_dir dir_arg skip_arg r) = analyze_calls r []"
    by (simp add: analyze_directory_def analyze_calls_Nil)
  then show ?thesis ..
next
  case (Some t)
  from analyze_tree_calls(1)
    [of env "case skip_arg of None \<Rightarrow> default_skip_dirs | Some sk \<Rightarrow> sk"
        "case dir_arg of None \<Rightarrow> root_dir | Some d \<Rightarrow> d" t "(r, None)"]
  obtain calls where
    "fst (analyze_tree env (case skip_arg of None \<Rightarrow> default_skip_dirs | Some sk \<Rightarrow> sk)
           (case dir_arg of None \<Rightarrow> root_dir | Some d \<Rightarrow> d) t (r, None)) =
     analyze_calls r calls"
    by auto
  with Some have "fst (analyze_directory env root_dir dir_arg skip_arg r) = analyze_calls r calls"
    by (simp add: analyze_directory_def)
  then show ?thesis ..
qed

subsection \<open>Output that is JSON of another shape\<close>

text \<open>
  What \<^verbatim>\<open>_run_astgrep\<close> catches is the failure of the invocation and of \<^verbatim>\<open>json.loads\<close>.
  With \<^verbatim>\<open>--json\<close> the tool prints a list of matches. Were it to print JSON of another
  shape, the decoded value would be returned as it is, and the loop over it could
  raise: the literal \<open>null\<close> is not iterable.
\<close>

lemma run_pattern_null:
  "run_astgrep env fp pattern language = JNull \<Longrightarrow>
   run_pattern env fp language kind pattern deps = Inl TypeError"
  by (simp add: run_pattern_def bind_err_def)

end
